theory Spec2Isabelle
  imports Main "HOL-Library.Multiset"
begin

section \<open>The 8-puzzle A* search of \<open>A-Star Search.cpp\<close>\<close>

text \<open>
  The program keeps two global lists of nodes (\<open>fringe\<close> and \<open>closed\<close>), two global
  counters and the global nodes \<open>startNode\<close>, \<open>currentNode\<close> and \<open>childNode\<close>.
  The lists and counters are the fields of the record \<open>globals\<close>, threaded through
  every function; the current and the child node are passed as arguments.

  A node holds the arrays \<open>a[3][3]\<close> and \<open>goal[3][3]\<close>, the costs \<open>g\<close>, \<open>h\<close>, \<open>f\<close>
  and the pointer \<open>parent\<close>. The loop counters \<open>i\<close>, \<open>j\<close> of the class are scratch
  variables and are not part of the model. A parent pointer always is
  \<open>&(closed.back())\<close>: the address of an element of a \<open>std::list\<close>, which is never
  moved, never erased and never written after it was pushed. The pointer is therefore
  modelled by the node it points to.
\<close>

subsection \<open>Data\<close>

type_synonym grid = "int list list"

definition MAX_ROWS :: nat where
  "MAX_ROWS = 3"

definition MAX_COLUMNS :: nat where
  "MAX_COLUMNS = 3"

text \<open>The heuristic is chosen by defining exactly one of two macros.\<close>

datatype heuristic = MISPLACED_TILES | MANHATTAN

datatype node =
  Node (node_a: grid) (node_goal: grid) (node_g: int) (node_h: int) (node_f: int)
       (node_parent: "node option")

record globals =
  fringe :: "node list"
  closed :: "node list"
  nodesGenerated :: int
  nodesExpanded :: int

text \<open>\<open>fringe.front()\<close> on an empty list is undefined behaviour; the model makes it an error value.\<close>

datatype error = FrontOfEmptyFringe

subsection \<open>Loops with \<open>break\<close>\<close>

text \<open>
  \<open>for_break xs body s\<close> runs \<open>body\<close> for the elements of \<open>xs\<close> in order; the body
  returns whether it executed \<open>break\<close>. The result says whether the loop was left by a
  \<open>break\<close>.
\<close>

fun for_break :: "nat list \<Rightarrow> (nat \<Rightarrow> 's \<Rightarrow> bool \<times> 's) \<Rightarrow> 's \<Rightarrow> bool \<times> 's" where
  "for_break [] body s = (False, s)"
| "for_break (x # xs) body s =
     (case body x s of
        (True, s') \<Rightarrow> (True, s')
      | (False, s') \<Rightarrow> for_break xs body s')"

text \<open>Two statements in sequence, the second skipped when the first executed \<open>break\<close>.\<close>

definition then_unless_break ::
  "('s \<Rightarrow> bool \<times> 's) \<Rightarrow> ('s \<Rightarrow> bool \<times> 's) \<Rightarrow> 's \<Rightarrow> bool \<times> 's" where
  "then_unless_break p q s =
     (case p s of
        (True, s') \<Rightarrow> (True, s')
      | (False, s') \<Rightarrow> q s')"

definition when_cond :: "bool \<Rightarrow> ('s \<Rightarrow> bool \<times> 's) \<Rightarrow> 's \<Rightarrow> bool \<times> 's" where
  "when_cond c p s = (if c then p s else (False, s))"

subsection \<open>Comparison operators\<close>

text \<open>\<open>operator<\<close>: written with \<open><=\<close> in the source.\<close>

definition node_less :: "node \<Rightarrow> node \<Rightarrow> bool" where
  "node_less this cur = (node_f this \<le> node_f cur)"

text \<open>\<open>operator==\<close>: the two arrays \<open>a\<close> agree in every cell.\<close>

definition node_eq :: "node \<Rightarrow> node \<Rightarrow> bool" where
  "node_eq this cur =
     list_all (\<lambda>i. list_all (\<lambda>j. node_a this ! i ! j = node_a cur ! i ! j) [0..<MAX_COLUMNS])
       [0..<MAX_ROWS]"

subsection \<open>Heuristics\<close>

text \<open>The section under \<open>#ifdef MANHATTAN\<close>: the body of the two inner loops for cell \<open>(i, j)\<close>.\<close>

definition manhattan_cell :: "grid \<Rightarrow> grid \<Rightarrow> nat \<Rightarrow> nat \<Rightarrow> int \<Rightarrow> int" where
  "manhattan_cell a gl i j h0 =
     snd (for_break [0..<MAX_ROWS]
            (\<lambda>k. for_break [0..<MAX_COLUMNS]
               (\<lambda>l h. if a ! i ! j = gl ! k ! l
                       then (True, h + \<bar>int i - int k\<bar> + \<bar>int j - int l\<bar>)
                       else (False, h)))
            h0)"

definition manhattan :: "grid \<Rightarrow> grid \<Rightarrow> int" where
  "manhattan a gl =
     fold (\<lambda>i. fold (\<lambda>j. manhattan_cell a gl i j) [0..<MAX_COLUMNS]) [0..<MAX_ROWS] 0"

text \<open>The section under \<open>#ifdef MISPLACED_TILES\<close>.\<close>

definition misplaced_tiles :: "grid \<Rightarrow> grid \<Rightarrow> int" where
  "misplaced_tiles a gl =
     fold (\<lambda>i. fold (\<lambda>j h. if a ! i ! j \<noteq> gl ! i ! j then h + 1 else h) [0..<MAX_COLUMNS])
       [0..<MAX_ROWS] 0"

definition heuristic_value :: "heuristic \<Rightarrow> grid \<Rightarrow> grid \<Rightarrow> int" where
  "heuristic_value cfg a gl =
     (case cfg of MANHATTAN \<Rightarrow> manhattan a gl | MISPLACED_TILES \<Rightarrow> misplaced_tiles a gl)"

definition getHeuristic :: "heuristic \<Rightarrow> node \<Rightarrow> node" where
  "getHeuristic cfg n =
     Node (node_a n) (node_goal n) (node_g n) (heuristic_value cfg (node_a n) (node_goal n))
          (node_f n) (node_parent n)"

subsection \<open>Successor generation\<close>

definition isExplored :: "node list \<Rightarrow> node \<Rightarrow> bool" where
  "isExplored cl cur = list_ex (\<lambda>it. node_eq it cur) cl"

definition getTotalCost :: "heuristic \<Rightarrow> node \<Rightarrow> node" where
  "getTotalCost cfg childNode =
     (let c1 = Node (node_a childNode) (node_goal childNode) (node_g childNode + 1)
                    (node_h childNode) (node_f childNode) (node_parent childNode);
          c2 = getHeuristic cfg c1
      in Node (node_a c2) (node_goal c2) (node_g c2) (node_h c2) (node_g c2 + node_h c2)
              (node_parent c2))"

definition setChildState :: "heuristic \<Rightarrow> node \<Rightarrow> globals \<Rightarrow> bool \<times> globals" where
  "setChildState cfg childNode s =
     (let s1 = s\<lparr>nodesGenerated := nodesGenerated s + 1\<rparr>
      in if \<not> isExplored (closed s1) childNode
         then (False, s1\<lparr>fringe := fringe s1 @ [getTotalCost cfg childNode]\<rparr>)
         else (False, s1))"

text \<open>\<open>swap(a[i][j], a[k][l])\<close> on a copy of the array.\<close>

definition set_cell :: "grid \<Rightarrow> nat \<Rightarrow> nat \<Rightarrow> int \<Rightarrow> grid" where
  "set_cell a i j v = a[i := (a ! i)[j := v]]"

definition swap_cells :: "grid \<Rightarrow> nat \<Rightarrow> nat \<Rightarrow> nat \<Rightarrow> nat \<Rightarrow> grid" where
  "swap_cells a i j k l = set_cell (set_cell a i j (a ! k ! l)) k l (a ! i ! j)"

text \<open>
  \<open>childNode = currentNode; childNode.parent = &(closed.back()); swap(...)\<close>,
  followed by the call of \<open>setChildState\<close>.
\<close>

definition make_child :: "node \<Rightarrow> node list \<Rightarrow> nat \<Rightarrow> nat \<Rightarrow> nat \<Rightarrow> nat \<Rightarrow> node" where
  "make_child currentNode cl i j k l =
     Node (swap_cells (node_a currentNode) i j k l) (node_goal currentNode)
          (node_g currentNode) (node_h currentNode) (node_f currentNode) (Some (last cl))"

definition try_move ::
  "heuristic \<Rightarrow> node \<Rightarrow> nat \<Rightarrow> nat \<Rightarrow> nat \<Rightarrow> nat \<Rightarrow> globals \<Rightarrow> bool \<times> globals" where
  "try_move cfg currentNode i j k l s =
     setChildState cfg (make_child currentNode (closed s) i j k l) s"

text \<open>The body of the two loops of \<open>getSuccessors\<close> for cell \<open>(i, j)\<close>.\<close>

definition successors_cell ::
  "heuristic \<Rightarrow> node \<Rightarrow> nat \<Rightarrow> nat \<Rightarrow> globals \<Rightarrow> bool \<times> globals" where
  "successors_cell cfg currentNode i j =
     when_cond (node_a currentNode ! i ! j = 0)
       (then_unless_break (when_cond (i > 0) (try_move cfg currentNode i j (i - 1) j))
       (then_unless_break (when_cond (i < MAX_ROWS - 1) (try_move cfg currentNode i j (i + 1) j))
       (then_unless_break (when_cond (j > 0) (try_move cfg currentNode i j i (j - 1)))
                          (when_cond (j < MAX_COLUMNS - 1) (try_move cfg currentNode i j i (j + 1))))))"

definition getSuccessors :: "heuristic \<Rightarrow> node \<Rightarrow> globals \<Rightarrow> bool \<times> globals" where
  "getSuccessors cfg currentNode s =
     (let s1 = s\<lparr>closed := closed s @ [currentNode]\<rparr>;
          (isGoalReached, s2) =
             for_break [0..<MAX_ROWS]
               (\<lambda>i. for_break [0..<MAX_COLUMNS] (\<lambda>j. successors_cell cfg currentNode i j)) s1
      in (isGoalReached, s2\<lparr>fringe := filter (\<lambda>n. \<not> node_eq n currentNode) (fringe s2)\<rparr>))"

subsection \<open>The search loop\<close>

definition isGoal :: "node \<Rightarrow> bool" where
  "isGoal n =
     list_all (\<lambda>i. list_all (\<lambda>j. node_a n ! i ! j = node_goal n ! i ! j) [0..<3]) [0..<3]"

text \<open>\<open>printPath\<close>: the arrays printed, those of the ancestors first.\<close>

fun printPath :: "node option \<Rightarrow> grid list" where
  "printPath None = []"
| "printPath (Some (Node a gl g h f parent)) = printPath parent @ [a]"

text \<open>The scan of the fringe at the head of the loop of \<open>solve\<close>, for a non-empty fringe.\<close>

definition select_node :: "node list \<Rightarrow> node" where
  "select_node fr = fold (\<lambda>it currentNode. if node_less it currentNode then it else currentNode) fr (hd fr)"

text \<open>
  The loop \<open>while (true)\<close> of \<open>solve\<close>, with a bound on the number of iterations:
  \<open>None\<close> says that the bound was reached. The result of a run that returns is the
  list of arrays it printed and the final globals.
\<close>

fun solve_loop :: "heuristic \<Rightarrow> nat \<Rightarrow> globals \<Rightarrow> (error + grid list \<times> globals) option" where
  "solve_loop cfg 0 s = None"
| "solve_loop cfg (Suc n) s =
     (if fringe s = [] then Some (Inl FrontOfEmptyFringe)
      else let currentNode = select_node (fringe s)
           in if isGoal currentNode
              then Some (Inr (printPath (Some currentNode),
                              s\<lparr>nodesExpanded := int (length (closed s))\<rparr>))
              else (case getSuccessors cfg currentNode s of
                      (True, s') \<Rightarrow> Some (Inr ([], s'))
                    | (False, s') \<Rightarrow> solve_loop cfg n s'))"

definition solve :: "heuristic \<Rightarrow> nat \<Rightarrow> node \<Rightarrow> globals \<Rightarrow> (error + grid list \<times> globals) option" where
  "solve cfg n startNode s = solve_loop cfg n (s\<lparr>fringe := fringe s @ [startNode]\<rparr>)"

definition initial_globals :: globals where
  "initial_globals = \<lparr>fringe = [], closed = [], nodesGenerated = 0, nodesExpanded = 0\<rparr>"

definition make_startNode :: "heuristic \<Rightarrow> grid \<Rightarrow> grid \<Rightarrow> node" where
  "make_startNode cfg start gl =
     (let n = getHeuristic cfg (Node start gl 0 0 0 None)
      in Node (node_a n) (node_goal n) (node_g n) (node_h n) (node_g n + node_h n) None)"

text \<open>\<open>main\<close>: the arrays read, the start node set up, \<open>solve\<close> called.\<close>

definition main :: "heuristic \<Rightarrow> nat \<Rightarrow> grid \<Rightarrow> grid \<Rightarrow> (error + grid list \<times> globals) option" where
  "main cfg n start gl = solve cfg n (make_startNode cfg start gl) initial_globals"


text \<open>
  The globals at the head of the loop after \<open>k\<close> complete iterations, when the run gets
  that far: \<open>None\<close> when one of the first \<open>k\<close> iterations left the loop.
\<close>

fun loop_state :: "heuristic \<Rightarrow> nat \<Rightarrow> globals \<Rightarrow> globals option" where
  "loop_state cfg 0 s = Some s"
| "loop_state cfg (Suc k) s =
     (if fringe s = [] then None
      else let currentNode = select_node (fringe s)
           in if isGoal currentNode then None
              else (case getSuccessors cfg currentNode s of
                      (True, s') \<Rightarrow> None
                    | (False, s') \<Rightarrow> loop_state cfg k s'))"

definition start_globals :: "heuristic \<Rightarrow> grid \<Rightarrow> grid \<Rightarrow> globals" where
  "start_globals cfg start gl = initial_globals\<lparr>fringe := [make_startNode cfg start gl]\<rparr>"

subsection \<open>Notions used to state the properties\<close>

text \<open>A grid as the input format describes it: three rows of three cells, each of 0 to 8 once.\<close>

definition grid_shape :: "grid \<Rightarrow> bool" where
  "grid_shape a = (length a = 3 \<and> list_all (\<lambda>r. length r = 3) a)"

definition valid_grid :: "grid \<Rightarrow> bool" where
  "valid_grid a =
     (grid_shape a \<and> list_all (\<lambda>v. count_list (concat a) v = 1) [0, 1, 2, 3, 4, 5, 6, 7, 8])"

text \<open>
  The swaps \<open>getSuccessors\<close> performs on an array, in its order: for every cell
  \<open>(i, j)\<close> that holds 0, the neighbours above, below, left and right that are inside
  the array.
\<close>

definition cell_moves :: "grid \<Rightarrow> nat \<Rightarrow> nat \<Rightarrow> (nat \<times> nat \<times> nat \<times> nat) list" where
  "cell_moves a i j =
     (if a ! i ! j = 0
      then (if i > 0 then [(i, j, i - 1, j)] else []) @
           (if i < MAX_ROWS - 1 then [(i, j, i + 1, j)] else []) @
           (if j > 0 then [(i, j, i, j - 1)] else []) @
           (if j < MAX_COLUMNS - 1 then [(i, j, i, j + 1)] else [])
      else [])"

definition moves :: "grid \<Rightarrow> (nat \<times> nat \<times> nat \<times> nat) list" where
  "moves a =
     concat (map (\<lambda>i. concat (map (\<lambda>j. cell_moves a i j) [0..<MAX_COLUMNS])) [0..<MAX_ROWS])"

definition successors :: "grid \<Rightarrow> grid list" where
  "successors a = map (\<lambda>(i, j, k, l). swap_cells a i j k l) (moves a)"

text \<open>One slide: the blank changes place with a neighbour inside the grid.\<close>

definition slide :: "grid \<Rightarrow> grid \<Rightarrow> bool" where
  "slide a b = (b \<in> set (successors a))"

text \<open>A sequence of grids in which every grid follows from the one before by one slide.\<close>

fun contiguous :: "grid list \<Rightarrow> bool" where
  "contiguous [] = True"
| "contiguous [a] = True"
| "contiguous (a # b # p) = (slide a b \<and> contiguous (b # p))"

text \<open>The node at the end of the parent chain.\<close>

fun chain_root :: "node \<Rightarrow> node" where
  "chain_root (Node a gl g h f None) = Node a gl g h f None"
| "chain_root (Node a gl g h f (Some p)) = chain_root p"

text \<open>The child node built for a swap, and what one iteration adds to the fringe.\<close>

definition child_of :: "node \<Rightarrow> nat \<times> nat \<times> nat \<times> nat \<Rightarrow> node" where
  "child_of currentNode m =
     (case m of (i, j, k, l) \<Rightarrow> make_child currentNode [currentNode] i j k l)"

definition add_child :: "heuristic \<Rightarrow> node \<Rightarrow> globals \<Rightarrow> globals" where
  "add_child cfg c s = snd (setChildState cfg c s)"

definition generated :: "heuristic \<Rightarrow> node list \<Rightarrow> node \<Rightarrow> node list" where
  "generated cfg cl currentNode =
     map (getTotalCost cfg)
       (filter (\<lambda>c. \<not> isExplored (cl @ [currentNode]) c)
          (map (child_of currentNode) (moves (node_a currentNode))))"

definition expand :: "heuristic \<Rightarrow> node \<Rightarrow> globals \<Rightarrow> globals" where
  "expand cfg currentNode s = snd (getSuccessors cfg currentNode s)"

text \<open>What \<open>isGoal\<close> and \<open>operator==\<close> compare: the nine cells of two arrays.\<close>

definition same_cells :: "grid \<Rightarrow> grid \<Rightarrow> bool" where
  "same_cells a b = list_all (\<lambda>i. list_all (\<lambda>j. a ! i ! j = b ! i ! j) [0..<3]) [0..<3]"

text \<open>No node of the fringe has a state that is in \<open>closed\<close>.\<close>

definition fringe_unexplored :: "globals \<Rightarrow> bool" where
  "fringe_unexplored s = list_all (\<lambda>n. \<not> isExplored (closed s) n) (fringe s)"

text \<open>What \<open>main\<close> writes to the output: the path and the two counters.\<close>

definition output_of :: "(error + grid list \<times> globals) option \<Rightarrow> (error + grid list \<times> int \<times> int) option" where
  "output_of r = map_option (map_sum id (\<lambda>(p, s). (p, nodesGenerated s, nodesExpanded s))) r"

text \<open>
  What every node of a run satisfies: its goal array is the goal read by \<open>main\<close>, its
  parent chain ends at the start node, the path along the chain starts at the start grid,
  ends at the node's grid and goes by slides, \<open>g\<close> is the number of slides of that path,
  \<open>h\<close> is the heuristic of the node's grid and \<open>f = g + h\<close>.
\<close>

definition good_node :: "heuristic \<Rightarrow> grid \<Rightarrow> grid \<Rightarrow> node \<Rightarrow> bool" where
  "good_node cfg start gl n =
     (node_goal n = gl \<and>
      chain_root n = make_startNode cfg start gl \<and>
      printPath (Some n) \<noteq> [] \<and>
      hd (printPath (Some n)) = start \<and>
      last (printPath (Some n)) = node_a n \<and>
      contiguous (printPath (Some n)) \<and>
      int (length (printPath (Some n))) = node_g n + 1 \<and>
      node_h n = heuristic_value cfg (node_a n) gl \<and>
      node_f n = node_g n + node_h n)"

definition all_good :: "heuristic \<Rightarrow> grid \<Rightarrow> grid \<Rightarrow> globals \<Rightarrow> bool" where
  "all_good cfg start gl s =
     (list_all (good_node cfg start gl) (fringe s) \<and> list_all (good_node cfg start gl) (closed s))"

text \<open>
  The sum of a quantity over the nine cells, in the order of the loops, and the amount the
  Manhattan section adds for a value \<open>v\<close> standing in cell \<open>(i, j)\<close>: the distance to the
  first cell of the goal, in the order of the loops, that holds \<open>v\<close>.
\<close>

definition cellsum :: "(nat \<Rightarrow> nat \<Rightarrow> int) \<Rightarrow> int" where
  "cellsum F = (\<Sum>i\<leftarrow>[0..<MAX_ROWS]. \<Sum>j\<leftarrow>[0..<MAX_COLUMNS]. F i j)"

definition cell_cost :: "grid \<Rightarrow> int \<Rightarrow> nat \<Rightarrow> nat \<Rightarrow> int" where
  "cell_cost gl v i j =
     snd (for_break [0..<MAX_ROWS]
            (\<lambda>k. for_break [0..<MAX_COLUMNS]
               (\<lambda>l h. if v = gl ! k ! l
                       then (True, h + \<bar>int i - int k\<bar> + \<bar>int j - int l\<bar>)
                       else (False, h)))
            0)"

definition first_match :: "grid \<Rightarrow> int \<Rightarrow> (nat \<times> nat) option" where
  "first_match gl v =
     find (\<lambda>(k, l). v = gl ! k ! l)
       [(0, 0), (0, 1), (0, 2), (1, 0), (1, 1), (1, 2), (2, 0), (2, 1), (2, 2)]"

text \<open>A grid of three rows of three cells whose cells all lie in a set \<open>V\<close>.\<close>

definition cells_within :: "int set \<Rightarrow> grid \<Rightarrow> bool" where
  "cells_within V a = (grid_shape a \<and> (\<forall>p<3. \<forall>q<3. a ! p ! q \<in> V))"

definition cells_of :: "grid \<Rightarrow> int set" where
  "cells_of a = (\<lambda>(p, q). a ! p ! q) ` ({0..<3} \<times> {0..<3})"

text \<open>
  The number of inversions of a list, and the parity of the inversions among the tiles of
  a grid read row by row: no slide changes it.
\<close>

fun inversions :: "int list \<Rightarrow> nat" where
  "inversions [] = 0"
| "inversions (x # xs) = length (filter (\<lambda>y. y < x) xs) + inversions xs"

definition cross_inversions :: "int list \<Rightarrow> int list \<Rightarrow> nat" where
  "cross_inversions xs ys = (\<Sum>x\<leftarrow>xs. length (filter (\<lambda>y. y < x) ys))"

definition tiles :: "grid \<Rightarrow> int list" where
  "tiles a = filter (\<lambda>v. v \<noteq> 0) (concat a)"

definition even_tiles :: "grid \<Rightarrow> bool" where
  "even_tiles a = even (inversions (tiles a))"

definition odd_start :: grid where
  "odd_start = [[1, 2, 3], [4, 5, 6], [8, 7, 0]]"








text \<open>
  The globals inside \<open>getSuccessors\<close> when the two loops are done and \<open>fringe.remove\<close> has
  not run yet: the current node was pushed on \<open>closed\<close> at the start of the function.
\<close>

definition getSuccessors_before_remove :: "heuristic \<Rightarrow> node \<Rightarrow> globals \<Rightarrow> globals" where
  "getSuccessors_before_remove cfg currentNode s =
     snd (for_break [0..<MAX_ROWS]
            (\<lambda>i. for_break [0..<MAX_COLUMNS] (\<lambda>j. successors_cell cfg currentNode i j))
            (s\<lparr>closed := closed s @ [currentNode]\<rparr>))"




text \<open>Grids of the scenarios.\<close>

definition goal_grid :: grid where
  "goal_grid = [[1, 2, 3], [4, 5, 6], [7, 8, 0]]"

definition tie_grid :: grid where
  "tie_grid = [[1, 2, 3], [4, 8, 5], [7, 0, 6]]"

definition near_goal_grid :: grid where
  "near_goal_grid = [[1, 2, 3], [4, 5, 6], [7, 0, 8]]"

definition invalid_start :: grid where
  "invalid_start = [[1, 1, 3], [4, 5, 6], [7, 0, 8]]"

definition invalid_goal :: grid where
  "invalid_goal = [[1, 1, 3], [4, 5, 6], [7, 8, 0]]"

section \<open>Properties\<close>

subsection \<open>Evaluation of the loops\<close>

lemma rows_upt: "[0..<MAX_ROWS] = [0, 1, 2]"
  by (simp add: MAX_ROWS_def upt_rec)

lemma cols_upt: "[0..<MAX_COLUMNS] = [0, 1, 2]"
  by (simp add: MAX_COLUMNS_def upt_rec)

lemma upt_3: "[0..<3] = [0, 1, 2]"
  by (simp add: upt_rec)

lemma setChildState_False: "fst (setChildState cfg childNode s) = False"
  by (simp add: setChildState_def Let_def)

lemma for_break_False:
  assumes "\<And>x s. fst (body x s) = False"
  shows "fst (for_break xs body s) = False"
proof (induction xs arbitrary: s)
  case Nil
  show ?case by simp
next
  case (Cons x xs)
  obtain b s' where bs: "body x s = (b, s')" by (cases "body x s")
  with assms [of x s] have "b = False" by simp
  with bs Cons show ?case by simp
qed

lemma when_cond_False:
  "(\<And>s. fst (p s) = False) \<Longrightarrow> fst (when_cond c p s) = False"
  by (simp add: when_cond_def)

lemma then_unless_break_False:
  assumes "\<And>s. fst (p s) = False" "\<And>s. fst (q s) = False"
  shows "fst (then_unless_break p q s) = False"
proof -
  obtain b s' where bs: "p s = (b, s')" by (cases "p s")
  with assms(1) [of s] have "b = False" by simp
  with bs assms(2) [of s'] show ?thesis by (simp add: then_unless_break_def)
qed

lemma try_move_False: "fst (try_move cfg cur i j k l s) = False"
  by (simp add: try_move_def setChildState_False)

lemma successors_cell_False: "fst (successors_cell cfg cur i j s) = False"
  unfolding successors_cell_def
  by (intro when_cond_False then_unless_break_False try_move_False)

lemma getSuccessors_False: "fst (getSuccessors cfg cur s) = False"
proof -
  have "fst (for_break [0..<MAX_ROWS]
               (\<lambda>i. for_break [0..<MAX_COLUMNS] (\<lambda>j. successors_cell cfg cur i j))
               (s\<lparr>closed := closed s @ [cur]\<rparr>)) = False"
    by (intro for_break_False successors_cell_False)
  then show ?thesis
    by (auto simp: getSuccessors_def Let_def split: prod.splits)
qed

lemma solve_loop_goal:
  "solve_loop cfg n s = Some (Inr (p, s')) \<Longrightarrow>
     \<exists>s0. fringe s0 \<noteq> [] \<and> isGoal (select_node (fringe s0)) \<and>
          p = printPath (Some (select_node (fringe s0))) \<and>
          s' = s0\<lparr>nodesExpanded := int (length (closed s0))\<rparr>"
proof (induction n arbitrary: s)
  case 0
  then show ?case by simp
next
  case (Suc n)
  show ?case
  proof (cases "fringe s = []")
    case True
    with Suc.prems show ?thesis by simp
  next
    case ne: False
    show ?thesis
    proof (cases "isGoal (select_node (fringe s))")
      case True
      with ne Suc.prems show ?thesis by (auto simp: Let_def)
    next
      case False
      obtain b s1 where gs: "getSuccessors cfg (select_node (fringe s)) s = (b, s1)"
        by (cases "getSuccessors cfg (select_node (fringe s)) s")
      with getSuccessors_False [of cfg "select_node (fringe s)" s] have "b = False" by simp
      with gs ne False Suc.prems have "solve_loop cfg n s1 = Some (Inr (p, s'))"
        by (simp add: Let_def)
      then show ?thesis by (rule Suc.IH)
    qed
  qed
qed


lemma for_break_fold:
  assumes "\<And>x s. I s \<Longrightarrow> body x s = (False, F x s) \<and> I (F x s)" and "I s"
  shows "for_break xs body s = (False, fold F xs s) \<and> I (fold F xs s)"
  using assms(2)
proof (induction xs arbitrary: s)
  case Nil
  then show ?case by simp
next
  case (Cons x xs)
  from assms(1) [OF Cons.prems] have b: "body x s = (False, F x s)" and i: "I (F x s)"
    by simp_all
  from Cons.IH [OF i] b show ?case by simp
qed

lemma closed_add_child [simp]: "closed (add_child cfg c s) = closed s"
  by (simp add: add_child_def setChildState_def Let_def)

lemma closed_fold_add_child [simp]: "closed (fold (add_child cfg) cs s) = closed s"
  by (induction cs arbitrary: s) simp_all

lemma try_move_add_child:
  "closed s \<noteq> [] \<Longrightarrow> last (closed s) = cur \<Longrightarrow>
   try_move cfg cur i j k l s = (False, add_child cfg (child_of cur (i, j, k, l)) s)"
  by (simp add: try_move_def add_child_def child_of_def make_child_def setChildState_def Let_def)

lemma successors_cell_fold:
  assumes "closed s \<noteq> []" "last (closed s) = cur"
  shows "successors_cell cfg cur i j s =
           (False, fold (add_child cfg) (map (child_of cur) (cell_moves (node_a cur) i j)) s)"
  using assms
  by (simp add: successors_cell_def cell_moves_def when_cond_def then_unless_break_def
      try_move_add_child)

lemma successors_row_fold:
  assumes "closed s \<noteq> []" "last (closed s) = cur"
  shows "for_break js (\<lambda>j. successors_cell cfg cur i j) s =
           (False, fold (add_child cfg)
                     (map (child_of cur) (concat (map (\<lambda>j. cell_moves (node_a cur) i j) js))) s)"
proof -
  let ?I = "\<lambda>s. closed s \<noteq> [] \<and> last (closed s) = cur"
  let ?F = "\<lambda>j. fold (add_child cfg) (map (child_of cur) (cell_moves (node_a cur) i j))"
  have "for_break js (\<lambda>j. successors_cell cfg cur i j) s = (False, fold ?F js s) \<and> ?I (fold ?F js s)"
    by (rule for_break_fold [where I = ?I]) (simp_all add: successors_cell_fold assms)
  moreover have "fold ?F js s =
      fold (add_child cfg) (map (child_of cur) (concat (map (\<lambda>j. cell_moves (node_a cur) i j) js))) s"
    by (induction js arbitrary: s) (simp_all add: map_concat)
  ultimately show ?thesis by simp
qed

lemma successors_all_fold:
  assumes "closed s \<noteq> []" "last (closed s) = cur"
  shows "for_break is (\<lambda>i. for_break js (\<lambda>j. successors_cell cfg cur i j)) s =
           (False, fold (add_child cfg)
              (map (child_of cur)
                 (concat (map (\<lambda>i. concat (map (\<lambda>j. cell_moves (node_a cur) i j) js)) is))) s)"
proof -
  let ?I = "\<lambda>s. closed s \<noteq> [] \<and> last (closed s) = cur"
  let ?F = "\<lambda>i. fold (add_child cfg)
              (map (child_of cur) (concat (map (\<lambda>j. cell_moves (node_a cur) i j) js)))"
  have "for_break is (\<lambda>i. for_break js (\<lambda>j. successors_cell cfg cur i j)) s = (False, fold ?F is s)
        \<and> ?I (fold ?F is s)"
    by (rule for_break_fold [where I = ?I]) (simp_all add: successors_row_fold assms)
  moreover have "fold ?F is s =
      fold (add_child cfg) (map (child_of cur)
         (concat (map (\<lambda>i. concat (map (\<lambda>j. cell_moves (node_a cur) i j) js)) is))) s"
    by (induction "is" arbitrary: s) simp_all
  ultimately show ?thesis by simp
qed

lemma fold_add_child:
  "fold (add_child cfg) cs s =
     s\<lparr>nodesGenerated := nodesGenerated s + int (length cs),
       fringe := fringe s @ map (getTotalCost cfg) (filter (\<lambda>c. \<not> isExplored (closed s) c) cs)\<rparr>"
proof (induction cs arbitrary: s)
  case Nil
  show ?case by simp
next
  case (Cons c cs)
  show ?case
    by (simp add: Cons.IH) (simp add: add_child_def setChildState_def Let_def)
qed

lemma getSuccessors_eq:
  "getSuccessors cfg cur s =
     (False, s\<lparr>closed := closed s @ [cur],
               nodesGenerated := nodesGenerated s + int (length (moves (node_a cur))),
               fringe := filter (\<lambda>n. \<not> node_eq n cur) (fringe s @ generated cfg (closed s) cur)\<rparr>)"
proof -
  have "for_break [0..<MAX_ROWS]
          (\<lambda>i. for_break [0..<MAX_COLUMNS] (\<lambda>j. successors_cell cfg cur i j))
          (s\<lparr>closed := closed s @ [cur]\<rparr>) =
        (False, fold (add_child cfg) (map (child_of cur) (moves (node_a cur)))
                  (s\<lparr>closed := closed s @ [cur]\<rparr>))"
    unfolding moves_def by (rule successors_all_fold) simp_all
  then show ?thesis
    by (simp add: getSuccessors_def fold_add_child generated_def)
qed

lemma expand_simps [simp]:
  "closed (expand cfg cur s) = closed s @ [cur]"
  "fringe (expand cfg cur s) = filter (\<lambda>n. \<not> node_eq n cur) (fringe s @ generated cfg (closed s) cur)"
  "nodesGenerated (expand cfg cur s) = nodesGenerated s + int (length (moves (node_a cur)))"
  "nodesExpanded (expand cfg cur s) = nodesExpanded s"
  by (simp_all add: expand_def getSuccessors_eq)

lemma solve_loop_Suc:
  "solve_loop cfg (Suc n) s =
     (if fringe s = [] then Some (Inl FrontOfEmptyFringe)
      else if isGoal (select_node (fringe s))
           then Some (Inr (printPath (Some (select_node (fringe s))),
                           s\<lparr>nodesExpanded := int (length (closed s))\<rparr>))
           else solve_loop cfg n (expand cfg (select_node (fringe s)) s))"
  by (simp add: Let_def expand_def getSuccessors_eq)


subsection \<open>Selection, loop states and fuel\<close>

lemma same_cells_refl [simp]: "same_cells a a"
  by (simp add: same_cells_def list_all_iff)

lemma same_cells_sym: "same_cells a b \<Longrightarrow> same_cells b a"
  by (simp add: same_cells_def list_all_iff)

lemma same_cells_trans: "same_cells a b \<Longrightarrow> same_cells b c \<Longrightarrow> same_cells a c"
  by (simp add: same_cells_def list_all_iff)

lemma node_eq_same_cells: "node_eq x y = same_cells (node_a x) (node_a y)"
  by (simp add: node_eq_def same_cells_def rows_upt cols_upt upt_3)

lemma isGoal_same_cells: "isGoal n = same_cells (node_a n) (node_goal n)"
  by (simp add: isGoal_def same_cells_def)

lemma isExplored_iff: "isExplored cl n = (\<exists>c \<in> set cl. same_cells (node_a c) (node_a n))"
  by (simp add: isExplored_def list_ex_iff node_eq_same_cells)

lemma select_node_in_fringe: "fr \<noteq> [] \<Longrightarrow> select_node fr \<in> set fr"
proof -
  have "fold (\<lambda>it cur. if node_less it cur then it else cur) xs c \<in> insert c (set xs)" for xs c
    by (induction xs arbitrary: c) auto
  from this [of fr "hd fr"] show "fr \<noteq> [] \<Longrightarrow> select_node fr \<in> set fr"
    by (auto simp: select_node_def)
qed


lemma loop_state_Suc:
  "loop_state cfg (Suc k) s =
     (if fringe s = [] \<or> isGoal (select_node (fringe s)) then None
      else loop_state cfg k (expand cfg (select_node (fringe s)) s))"
  by (simp add: Let_def expand_def getSuccessors_eq)

declare loop_state.simps(2) [simp del]
declare solve_loop.simps(2) [simp del]

lemma loop_state_invariant:
  assumes "loop_state cfg k s = Some s'" and "P s"
    and step: "\<And>s. P s \<Longrightarrow> fringe s \<noteq> [] \<Longrightarrow> \<not> isGoal (select_node (fringe s)) \<Longrightarrow>
                 P (expand cfg (select_node (fringe s)) s)"
  shows "P s'"
  using assms(1,2)
proof (induction k arbitrary: s)
  case 0
  then show ?case by simp
next
  case (Suc k)
  from Suc.prems(1) have ne: "fringe s \<noteq> []" and ng: "\<not> isGoal (select_node (fringe s))"
    and rest: "loop_state cfg k (expand cfg (select_node (fringe s)) s) = Some s'"
    by (auto simp: loop_state_Suc split: if_splits)
  from step [OF Suc.prems(2) ne ng] rest show ?case by (rule Suc.IH [rotated])
qed

lemma solve_loop_result:
  "solve_loop cfg n s = Some (Inr (p, s')) \<Longrightarrow>
     \<exists>k s0. loop_state cfg k s = Some s0 \<and> fringe s0 \<noteq> [] \<and>
            isGoal (select_node (fringe s0)) \<and>
            p = printPath (Some (select_node (fringe s0))) \<and>
            s' = s0\<lparr>nodesExpanded := int (length (closed s0))\<rparr>"
proof (induction n arbitrary: s)
  case 0
  then show ?case by simp
next
  case (Suc n)
  show ?case
  proof (cases "fringe s = [] \<or> isGoal (select_node (fringe s))")
    case True
    with Suc.prems have "loop_state cfg 0 s = Some s \<and> fringe s \<noteq> [] \<and>
        isGoal (select_node (fringe s)) \<and> p = printPath (Some (select_node (fringe s))) \<and>
        s' = s\<lparr>nodesExpanded := int (length (closed s))\<rparr>"
      by (auto simp: solve_loop_Suc split: if_splits)
    then show ?thesis by blast
  next
    case False
    with Suc.prems have "solve_loop cfg n (expand cfg (select_node (fringe s)) s) = Some (Inr (p, s'))"
      by (simp add: solve_loop_Suc)
    from Suc.IH [OF this] obtain k s0 where
      "loop_state cfg k (expand cfg (select_node (fringe s)) s) = Some s0" and
      r: "fringe s0 \<noteq> []" "isGoal (select_node (fringe s0))"
         "p = printPath (Some (select_node (fringe s0)))"
         "s' = s0\<lparr>nodesExpanded := int (length (closed s0))\<rparr>"
      by blast
    with False have "loop_state cfg (Suc k) s = Some s0"
      by (simp add: loop_state_Suc)
    with r show ?thesis by blast
  qed
qed


lemma fringe_unexplored_expand:
  assumes "fringe_unexplored s"
  shows "fringe_unexplored (expand cfg cur s)"
proof -
  have "\<not> isExplored (closed s @ [cur]) n"
    if "n \<in> set (fringe s @ generated cfg (closed s) cur)" "\<not> node_eq n cur" for n
  proof (cases "n \<in> set (fringe s)")
    case True
    with assms have "\<not> isExplored (closed s) n"
      by (simp add: fringe_unexplored_def list_all_iff)
    with that(2) show ?thesis
      by (auto simp: isExplored_iff node_eq_same_cells dest: same_cells_sym)
  next
    case False
    with that(1) obtain c where "\<not> isExplored (closed s @ [cur]) c" "n = getTotalCost cfg c"
      by (auto simp: generated_def)
    then show ?thesis
      by (simp add: isExplored_iff getTotalCost_def getHeuristic_def Let_def)
  qed
  then show ?thesis
    by (auto simp: fringe_unexplored_def list_all_iff)
qed

lemma fringe_unexplored_start: "fringe_unexplored (start_globals cfg start gl)"
  by (simp add: fringe_unexplored_def start_globals_def initial_globals_def isExplored_def)

subsection \<open>Where the goal is detected\<close>

text \<open>
  C10. \<open>setChildState\<close> returns false on every call, so \<open>getSuccessors\<close> returns
  false on every call and the \<open>break\<close> branches that set \<open>isGoalReached\<close> are never
  taken: every run of the loop that returns has found the goal by the \<open>isGoal\<close> test on
  the node selected from the fringe, has printed that node's path and has set
  \<open>nodesExpanded\<close> to the size of \<open>closed\<close>.
\<close>

theorem goal_detected_only_at_selection:
  "fst (setChildState cfg childNode s) = False \<and>
   fst (getSuccessors cfg currentNode s) = False \<and>
   (solve_loop cfg n s = Some (Inr (p, s')) \<longrightarrow>
      (\<exists>s0. fringe s0 \<noteq> [] \<and> isGoal (select_node (fringe s0)) \<and>
            p = printPath (Some (select_node (fringe s0))) \<and>
            s' = s0\<lparr>nodesExpanded := int (length (closed s0))\<rparr>))"
  using setChildState_False getSuccessors_False solve_loop_goal by blast

theorem goal_detected_only_at_selection_witness:
  "solve_loop MISPLACED_TILES 1 (start_globals MISPLACED_TILES goal_grid goal_grid) =
     Some (Inr ([goal_grid], start_globals MISPLACED_TILES goal_grid goal_grid)) \<and>
   (\<exists>s0::globals. fringe s0 \<noteq> [] \<and> isGoal (select_node (fringe s0)) \<and>
         [goal_grid] = printPath (Some (select_node (fringe s0))))"
proof -
  let ?s = "start_globals MISPLACED_TILES goal_grid goal_grid"
  have run: "solve_loop MISPLACED_TILES 1 ?s = Some (Inr ([goal_grid], ?s))"
    by code_simp
  from goal_detected_only_at_selection [THEN conjunct2, THEN conjunct2, THEN mp, OF run]
  obtain s0 :: globals where "fringe s0 \<noteq> []" "isGoal (select_node (fringe s0))"
      "[goal_grid] = printPath (Some (select_node (fringe s0)))"
    by blast
  with run show ?thesis by (intro conjI exI [of _ s0])
qed

subsection \<open>Start equal to goal\<close>

text \<open>
  C8. When start and goal are the same grid, the run succeeds in its first iteration: the
  path printed is that grid alone, nothing has been expanded (\<open>closed\<close> is empty and
  \<open>nodesExpanded\<close> is 0). This holds for every grid, valid or not.
\<close>

theorem start_equals_goal:
  "\<exists>s. main cfg (Suc n) G G = Some (Inr ([G], s)) \<and> nodesExpanded s = 0 \<and> closed s = []"
  by (simp add: main_def solve_def solve_loop_Suc initial_globals_def select_node_def
      make_startNode_def getHeuristic_def isGoal_same_cells Let_def)

subsection \<open>Selection among equal costs\<close>

text \<open>
  C3. The scan of the fringe replaces the tentative best with every later element whose
  \<open>f\<close> is less than or equal to it, because \<open>operator<\<close> compares with \<open><=\<close>. After
  the first iteration on start \<open>tie_grid\<close>, the fringe holds three children with
  \<open>f\<close> = 4, 6, 4; the scan selects the third, not the first.
\<close>

theorem select_node_takes_last_minimum:
  "loop_state MISPLACED_TILES 1 (start_globals MISPLACED_TILES tie_grid goal_grid) =
     Some \<lparr>fringe = [Node [[1, 2, 3], [4, 0, 5], [7, 8, 6]] goal_grid 1 3 4
                        (Some (Node tie_grid goal_grid 0 4 4 None)),
                     Node [[1, 2, 3], [4, 8, 5], [0, 7, 6]] goal_grid 1 5 6
                        (Some (Node tie_grid goal_grid 0 4 4 None)),
                     Node [[1, 2, 3], [4, 8, 5], [7, 6, 0]] goal_grid 1 3 4
                        (Some (Node tie_grid goal_grid 0 4 4 None))],
            closed = [Node tie_grid goal_grid 0 4 4 None],
            nodesGenerated = 3, nodesExpanded = 0\<rparr> \<and>
   select_node [Node [[1, 2, 3], [4, 0, 5], [7, 8, 6]] goal_grid 1 3 4
                        (Some (Node tie_grid goal_grid 0 4 4 None)),
                     Node [[1, 2, 3], [4, 8, 5], [0, 7, 6]] goal_grid 1 5 6
                        (Some (Node tie_grid goal_grid 0 4 4 None)),
                     Node [[1, 2, 3], [4, 8, 5], [7, 6, 0]] goal_grid 1 3 4
                        (Some (Node tie_grid goal_grid 0 4 4 None))] =
     Node [[1, 2, 3], [4, 8, 5], [7, 6, 0]] goal_grid 1 3 4
                        (Some (Node tie_grid goal_grid 0 4 4 None))"
  by code_simp


subsection \<open>Fringe and closed list\<close>

lemma getSuccessors_before_remove_eq:
  "getSuccessors_before_remove cfg cur s =
     s\<lparr>closed := closed s @ [cur],
       nodesGenerated := nodesGenerated s + int (length (moves (node_a cur))),
       fringe := fringe s @ generated cfg (closed s) cur\<rparr>"
proof -
  have "for_break [0..<MAX_ROWS]
          (\<lambda>i. for_break [0..<MAX_COLUMNS] (\<lambda>j. successors_cell cfg cur i j))
          (s\<lparr>closed := closed s @ [cur]\<rparr>) =
        (False, fold (add_child cfg) (map (child_of cur) (moves (node_a cur)))
                  (s\<lparr>closed := closed s @ [cur]\<rparr>))"
    unfolding moves_def by (rule successors_all_fold) simp_all
  then show ?thesis
    by (simp add: getSuccessors_before_remove_def fold_add_child generated_def)
qed

lemma getSuccessors_remove:
  "getSuccessors cfg cur s =
     (False, (getSuccessors_before_remove cfg cur s)
               \<lparr>fringe := filter (\<lambda>n. \<not> node_eq n cur)
                            (fringe (getSuccessors_before_remove cfg cur s))\<rparr>)"
  by (simp add: getSuccessors_eq getSuccessors_before_remove_eq)





subsection \<open>Determinism\<close>







subsection \<open>Input that is not a permutation of 0 to 8\<close>

text \<open>
  C5, as stated, fails: \<open>main\<close> does not look at what it read. With a start and a goal
  that both hold 1 twice and no 2, the search runs, expands one node, generates three and
  prints a path of two grids.
\<close>

theorem invalid_input_is_searched:
  "\<not> valid_grid invalid_start \<and> \<not> valid_grid invalid_goal \<and>
   output_of (main MISPLACED_TILES 2 invalid_start invalid_goal) =
     Some (Inr ([invalid_start, invalid_goal], 3, 1))"
  by code_simp

text \<open>
  C5, amended. No input is rejected: for every start and goal, valid or not, \<open>main\<close>
  builds the start node and enters the loop, whose first iteration selects the start node
  and tests it against the goal; if the test fails the node is expanded and the loop goes on.
\<close>

theorem no_input_validation:
  "main cfg (Suc n) start gl =
     (if isGoal (make_startNode cfg start gl)
      then Some (Inr ([start], start_globals cfg start gl))
      else solve_loop cfg n
             (expand cfg (make_startNode cfg start gl) (start_globals cfg start gl)))"
  by (simp add: main_def solve_def solve_loop_Suc start_globals_def initial_globals_def
      select_node_def make_startNode_def getHeuristic_def Let_def)


subsection \<open>Nodes and their paths\<close>

lemma set_moves:
  "set (moves a) = (\<Union>i \<in> {0..<3}. \<Union>j \<in> {0..<3}. set (cell_moves a i j))"
  by (simp add: moves_def MAX_ROWS_def MAX_COLUMNS_def)

lemma in_cell_moves:
  "(i, j, k, l) \<in> set (cell_moves a i' j') \<longleftrightarrow>
     i = i' \<and> j = j' \<and> a ! i ! j = 0 \<and>
     (l = j \<and> (i = k + 1 \<or> (k = i + 1 \<and> k < 3)) \<or>
      k = i \<and> (j = l + 1 \<or> (l = j + 1 \<and> l < 3)))"
  by (auto simp: cell_moves_def MAX_ROWS_def MAX_COLUMNS_def)

lemma in_moves:
  "(i, j, k, l) \<in> set (moves a) \<longleftrightarrow>
     i < 3 \<and> j < 3 \<and> k < 3 \<and> l < 3 \<and> a ! i ! j = 0 \<and>
     (l = j \<and> (i = k + 1 \<or> k = i + 1) \<or> k = i \<and> (j = l + 1 \<or> l = j + 1))"
  by (auto simp: set_moves in_cell_moves)

lemma slide_iff:
  "slide a b \<longleftrightarrow>
     (\<exists>i j k l. i < 3 \<and> j < 3 \<and> k < 3 \<and> l < 3 \<and> a ! i ! j = 0 \<and>
        (l = j \<and> (i = k + 1 \<or> k = i + 1) \<or> k = i \<and> (j = l + 1 \<or> l = j + 1)) \<and>
        b = swap_cells a i j k l)"
proof -
  have "slide a b \<longleftrightarrow> (\<exists>i j k l. (i, j, k, l) \<in> set (moves a) \<and> b = swap_cells a i j k l)"
    by (auto simp: slide_def successors_def image_iff Bex_def)
  then show ?thesis by (simp only: in_moves conj_assoc)
qed

lemma slide_child: "m \<in> set (moves (node_a cur)) \<Longrightarrow> slide (node_a cur) (node_a (child_of cur m))"
  by (cases m) (force simp: slide_def successors_def child_of_def make_child_def image_iff)

lemma output_of_Inr:
  assumes "output_of r = Some (Inr (p, gen, ex))"
  shows "\<exists>s. r = Some (Inr (p, s)) \<and> nodesGenerated s = gen \<and> nodesExpanded s = ex"
proof (cases r)
  case None
  with assms show ?thesis by (simp add: output_of_def)
next
  case (Some x)
  with assms show ?thesis by (cases x) (auto simp: output_of_def)
qed

lemma printPath_Some: "printPath (Some n) = printPath (node_parent n) @ [node_a n]"
  by (cases n) simp

lemma chain_root_parent: "node_parent n = Some p \<Longrightarrow> chain_root n = chain_root p"
  by (cases n) simp

lemma chain_root_no_parent: "node_parent (chain_root n) = None"
  by (induction n rule: chain_root.induct) simp_all

lemma contiguous_snoc:
  "contiguous p \<Longrightarrow> p \<noteq> [] \<Longrightarrow> slide (last p) b \<Longrightarrow> contiguous (p @ [b])"
  by (induction p rule: contiguous.induct) simp_all

lemma getTotalCost_fields [simp]:
  "node_a (getTotalCost cfg c) = node_a c"
  "node_goal (getTotalCost cfg c) = node_goal c"
  "node_g (getTotalCost cfg c) = node_g c + 1"
  "node_h (getTotalCost cfg c) = heuristic_value cfg (node_a c) (node_goal c)"
  "node_f (getTotalCost cfg c) = node_g c + 1 + heuristic_value cfg (node_a c) (node_goal c)"
  "node_parent (getTotalCost cfg c) = node_parent c"
  by (simp_all add: getTotalCost_def getHeuristic_def Let_def)

lemma child_of_fields [simp]:
  "node_goal (child_of cur m) = node_goal cur"
  "node_g (child_of cur m) = node_g cur"
  "node_parent (child_of cur m) = Some cur"
  by (cases m; simp add: child_of_def make_child_def)+

lemma make_startNode_fields [simp]:
  "node_a (make_startNode cfg start gl) = start"
  "node_goal (make_startNode cfg start gl) = gl"
  "node_g (make_startNode cfg start gl) = 0"
  "node_h (make_startNode cfg start gl) = heuristic_value cfg start gl"
  "node_f (make_startNode cfg start gl) = heuristic_value cfg start gl"
  "node_parent (make_startNode cfg start gl) = None"
  by (simp_all add: make_startNode_def getHeuristic_def Let_def)

lemma good_startNode: "good_node cfg start gl (make_startNode cfg start gl)"
proof -
  have "chain_root (make_startNode cfg start gl) = make_startNode cfg start gl"
    by (simp add: make_startNode_def getHeuristic_def Let_def)
  then show ?thesis by (simp add: good_node_def printPath_Some)
qed

lemma good_child:
  assumes "good_node cfg start gl cur" "m \<in> set (moves (node_a cur))"
  shows "good_node cfg start gl (getTotalCost cfg (child_of cur m))"
proof -
  let ?c = "getTotalCost cfg (child_of cur m)"
  let ?p = "printPath (Some cur)"
  have path: "printPath (Some ?c) = ?p @ [node_a (child_of cur m)]"
    by (simp add: printPath_Some [of ?c])
  have root: "chain_root ?c = chain_root cur"
    by (rule chain_root_parent) simp
  from assms have "contiguous (?p @ [node_a (child_of cur m)])"
    by (intro contiguous_snoc) (simp_all add: good_node_def slide_child)
  with assms(1) path root show ?thesis
    by (simp add: good_node_def)
qed

lemma all_good_start: "all_good cfg start gl (start_globals cfg start gl)"
  by (simp add: all_good_def start_globals_def initial_globals_def good_startNode)

lemma all_good_expand:
  assumes "all_good cfg start gl s" "cur \<in> set (fringe s)"
  shows "all_good cfg start gl (expand cfg cur s)"
proof -
  from assms have cur: "good_node cfg start gl cur"
    by (simp add: all_good_def list_all_iff)
  then have "good_node cfg start gl n" if "n \<in> set (generated cfg (closed s) cur)" for n
    using that by (auto simp: generated_def good_child)
  with assms(1) cur show ?thesis
    by (auto simp: all_good_def list_all_iff)
qed

lemma all_good_loop_state:
  assumes "loop_state cfg k (start_globals cfg start gl) = Some s"
  shows "all_good cfg start gl s"
  using assms all_good_start
  by (rule loop_state_invariant) (simp add: all_good_expand select_node_in_fringe)

text \<open>
  C9. The path a successful run prints is the sequence of grids along the parent chain of
  the goal node, the oldest ancestor first: it is not empty, starts with the start grid,
  ends with a grid whose nine cells are those of the goal, and every grid in it follows
  from the one before by one slide (\<open>slide_iff\<close> spells a slide out as one swap of a cell
  holding 0 with a neighbour inside the grid). The parent chain of the goal node ends at
  the start node, which has no parent.
\<close>

theorem path_from_start_to_goal:
  assumes "main cfg n start gl = Some (Inr (p, s))"
  shows "p \<noteq> [] \<and> hd p = start \<and> same_cells (last p) gl \<and> contiguous p \<and>
         (\<exists>cur. isGoal cur \<and> p = printPath (Some cur) \<and>
                chain_root cur = make_startNode cfg start gl \<and>
                node_parent (chain_root cur) = None)"
proof -
  from assms have "solve_loop cfg n (start_globals cfg start gl) = Some (Inr (p, s))"
    by (simp add: main_def solve_def start_globals_def initial_globals_def)
  then obtain k s0 where run: "loop_state cfg k (start_globals cfg start gl) = Some s0"
    and ne: "fringe s0 \<noteq> []" and goal: "isGoal (select_node (fringe s0))"
    and p: "p = printPath (Some (select_node (fringe s0)))"
    using solve_loop_result by blast
  let ?cur = "select_node (fringe s0)"
  from all_good_loop_state [OF run] select_node_in_fringe [OF ne]
  have good: "good_node cfg start gl ?cur"
    by (simp add: all_good_def list_all_iff)
  with goal have "same_cells (last p) gl"
    by (simp add: p good_node_def isGoal_same_cells)
  moreover from good have "p \<noteq> []" "hd p = start" "contiguous p"
    by (simp_all add: p good_node_def)
  moreover from good goal p have "isGoal ?cur \<and> p = printPath (Some ?cur) \<and>
      chain_root ?cur = make_startNode cfg start gl \<and> node_parent (chain_root ?cur) = None"
    by (simp add: good_node_def)
  ultimately show ?thesis by blast
qed

theorem path_from_start_to_goal_witness:
  "output_of (main MISPLACED_TILES 2 near_goal_grid goal_grid) =
     Some (Inr ([near_goal_grid, goal_grid], 3, 1)) \<and>
   hd [near_goal_grid, goal_grid] = near_goal_grid \<and>
   same_cells (last [near_goal_grid, goal_grid]) goal_grid \<and>
   contiguous [near_goal_grid, goal_grid]"
proof -
  have out: "output_of (main MISPLACED_TILES 2 near_goal_grid goal_grid) =
     Some (Inr ([near_goal_grid, goal_grid], 3, 1))"
    by code_simp
  then obtain s where "main MISPLACED_TILES 2 near_goal_grid goal_grid =
      Some (Inr ([near_goal_grid, goal_grid], s))"
    using output_of_Inr by blast
  from path_from_start_to_goal [OF this] out show ?thesis by simp
qed

subsection \<open>The heuristics as sums over the cells\<close>

lemma fold_add: "fold (\<lambda>x (h::int). h + F x) xs h0 = h0 + (\<Sum>x\<leftarrow>xs. F x)"
  by (induction xs arbitrary: h0) simp_all

lemma misplaced_tiles_cellsum:
  "misplaced_tiles a gl = cellsum (\<lambda>i j. if a ! i ! j \<noteq> gl ! i ! j then 1 else 0)"
proof -
  have inner: "(\<lambda>j (h::int). if a ! i ! j \<noteq> gl ! i ! j then h + 1 else h) =
               (\<lambda>j h. h + (if a ! i ! j \<noteq> gl ! i ! j then 1 else 0))" for i
    by (intro ext) simp
  show ?thesis
    by (simp add: misplaced_tiles_def cellsum_def inner fold_add [abs_def] fold_add)
qed

lemma manhattan_cell_cost: "manhattan_cell a gl i j h0 = h0 + cell_cost gl (a ! i ! j) i j"
  by (simp add: manhattan_cell_def cell_cost_def rows_upt cols_upt)

lemma manhattan_cellsum: "manhattan a gl = cellsum (\<lambda>i j. cell_cost gl (a ! i ! j) i j)"
  by (simp add: manhattan_def cellsum_def manhattan_cell_cost [abs_def] fold_add [abs_def] fold_add)

lemma cellsum_set: "cellsum F = (\<Sum>(i, j) \<in> {0..<3} \<times> {0..<3}. F i j)"
  by (simp add: cellsum_def MAX_ROWS_def MAX_COLUMNS_def sum.cartesian_product
      interv_sum_list_conv_sum_set_nat)

lemma cellsum_two_cells:
  assumes "i < 3" "j < 3" "k < 3" "l < 3" "(i, j) \<noteq> (k, l)"
    and same: "\<And>p q. p < 3 \<Longrightarrow> q < 3 \<Longrightarrow> (p, q) \<noteq> (i, j) \<Longrightarrow> (p, q) \<noteq> (k, l) \<Longrightarrow> F p q = F' p q"
  shows "cellsum F - cellsum F' = F i j + F k l - (F' i j + F' k l)"
proof -
  let ?S = "{0..<3} \<times> {0..<3} :: (nat \<times> nat) set"
  let ?R = "?S - {(i, j)} - {(k, l)}"
  have fin: "finite ?S" "finite (?S - {(i, j)})" by simp_all
  have mem: "(i, j) \<in> ?S" "(k, l) \<in> ?S - {(i, j)}" using assms(1-5) by auto
  have split: "(\<Sum>(p, q) \<in> ?S. G p q) = G i j + (G k l + (\<Sum>(p, q) \<in> ?R. G p q))"
    for G :: "nat \<Rightarrow> nat \<Rightarrow> int"
    using sum.remove [OF fin(1) mem(1), of "\<lambda>(p, q). G p q"]
          sum.remove [OF fin(2) mem(2), of "\<lambda>(p, q). G p q"]
    by simp
  have "(\<Sum>(p, q) \<in> ?R. F p q) = (\<Sum>(p, q) \<in> ?R. F' p q)"
    by (rule sum.cong) (auto intro: same)
  then show ?thesis by (simp add: cellsum_set split)
qed


subsection \<open>Swapping two cells\<close>

lemma grid_shape_rows: "grid_shape a \<Longrightarrow> p < 3 \<Longrightarrow> length (a ! p) = 3"
  by (simp add: grid_shape_def list_all_length)

lemma grid_shape_set_cell:
  assumes "grid_shape a"
  shows "grid_shape (set_cell a i j v)"
proof -
  have "length (a[i := (a ! i)[j := v]] ! n) = 3" if "n < 3" for n
  proof (cases "n = i")
    case True
    with that assms show ?thesis by (simp add: grid_shape_def list_all_length)
  next
    case False
    with that assms show ?thesis by (simp add: grid_shape_def list_all_length)
  qed
  with assms show ?thesis by (simp add: grid_shape_def set_cell_def list_all_length)
qed

lemma grid_shape_swap_cells: "grid_shape a \<Longrightarrow> grid_shape (swap_cells a i j k l)"
  by (simp add: swap_cells_def grid_shape_set_cell)

lemma set_cell_nth:
  assumes "grid_shape a" "i < 3" "j < 3"
  shows "set_cell a i j v ! p ! q = (if (p, q) = (i, j) then v else a ! p ! q)"
  using assms grid_shape_rows [of a i]
  by (auto simp: set_cell_def grid_shape_def nth_list_update)

lemma swap_cells_nth:
  assumes "grid_shape a" "i < 3" "j < 3" "k < 3" "l < 3"
  shows "swap_cells a i j k l ! p ! q =
           (if (p, q) = (k, l) then a ! i ! j else if (p, q) = (i, j) then a ! k ! l else a ! p ! q)"
  using assms by (simp add: swap_cells_def set_cell_nth grid_shape_set_cell)

lemma moves_distinct_cells: "(i, j, k, l) \<in> set (moves a) \<Longrightarrow> (i, j) \<noteq> (k, l)"
  by (auto simp: in_moves)

lemma grid_shape_slide: "grid_shape a \<Longrightarrow> slide a b \<Longrightarrow> grid_shape b"
  by (auto simp: slide_iff grid_shape_swap_cells)

lemma grid_shape_explicit:
  "grid_shape a \<Longrightarrow> \<exists>x0 x1 x2 x3 x4 x5 x6 x7 x8. a = [[x0, x1, x2], [x3, x4, x5], [x6, x7, x8]]"
  by (auto simp: grid_shape_def numeral_3_eq_3 length_Suc_conv)

subsection \<open>How much a slide changes a heuristic\<close>

lemma misplaced_tiles_slide:
  assumes "grid_shape a" "slide a b"
  shows "misplaced_tiles a gl \<le> 2 + misplaced_tiles b gl"
proof -
  from assms(2) obtain i j k l where m: "(i, j, k, l) \<in> set (moves a)"
    and b: "b = swap_cells a i j k l"
    by (auto simp: slide_def successors_def)
  from m have lt: "i < 3" "j < 3" "k < 3" "l < 3" and ne: "(i, j) \<noteq> (k, l)"
    by (auto simp: in_moves)
  let ?F = "\<lambda>a p q. if a ! p ! q \<noteq> gl ! p ! q then 1 else (0::int)"
  have "cellsum (?F a) - cellsum (?F b) = ?F a i j + ?F a k l - (?F b i j + ?F b k l)"
    using lt ne by (rule cellsum_two_cells) (auto simp: b swap_cells_nth assms(1) lt)
  then show ?thesis by (simp add: misplaced_tiles_cellsum split: if_splits)
qed

lemma cell_cost_first_match:
  "cell_cost gl v i j =
     (case first_match gl v of
        None \<Rightarrow> 0
      | Some (k, l) \<Rightarrow> \<bar>int i - int k\<bar> + \<bar>int j - int l\<bar>)"
  by (simp add: cell_cost_def first_match_def rows_upt cols_upt)

lemma cell_cost_neighbour:
  assumes "l = j \<and> (i = k + 1 \<or> k = i + 1) \<or> k = i \<and> (j = l + 1 \<or> l = j + 1)"
  shows "cell_cost gl v i j \<le> cell_cost gl v k l + 1"
proof (cases "first_match gl v")
  case None
  then show ?thesis by (simp add: cell_cost_first_match)
next
  case (Some m)
  obtain k' l' where "m = (k', l')" by (cases m)
  with Some assms show ?thesis by (auto simp: cell_cost_first_match)
qed

lemma manhattan_slide:
  assumes "grid_shape a" "slide a b"
  shows "manhattan a gl \<le> 2 + manhattan b gl"
proof -
  from assms(2) obtain i j k l where m: "(i, j, k, l) \<in> set (moves a)"
    and b: "b = swap_cells a i j k l"
    by (auto simp: slide_def successors_def)
  from m have lt: "i < 3" "j < 3" "k < 3" "l < 3" and ne: "(i, j) \<noteq> (k, l)"
    and adj: "l = j \<and> (i = k + 1 \<or> k = i + 1) \<or> k = i \<and> (j = l + 1 \<or> l = j + 1)"
    by (auto simp: in_moves)
  from adj have adj': "j = l \<and> (k = i + 1 \<or> i = k + 1) \<or> i = k \<and> (l = j + 1 \<or> j = l + 1)"
    by auto
  let ?F = "\<lambda>a p q. cell_cost gl (a ! p ! q) p q"
  have "cellsum (?F a) - cellsum (?F b) = ?F a i j + ?F a k l - (?F b i j + ?F b k l)"
    using lt ne by (rule cellsum_two_cells) (auto simp: b swap_cells_nth assms(1) lt)
  moreover have "?F b i j = cell_cost gl (a ! k ! l) i j" "?F b k l = cell_cost gl (a ! i ! j) k l"
    using ne by (auto simp: b swap_cells_nth assms(1) lt)
  moreover have "cell_cost gl (a ! k ! l) k l \<le> cell_cost gl (a ! k ! l) i j + 1"
    using adj' by (rule cell_cost_neighbour)
  moreover have "cell_cost gl (a ! i ! j) i j \<le> cell_cost gl (a ! i ! j) k l + 1"
    using adj by (rule cell_cost_neighbour)
  ultimately show ?thesis by (simp add: manhattan_cellsum)
qed

lemma heuristic_value_slide:
  "grid_shape a \<Longrightarrow> slide a b \<Longrightarrow> heuristic_value cfg a gl \<le> 2 + heuristic_value cfg b gl"
  by (cases cfg) (simp_all add: heuristic_value_def misplaced_tiles_slide manhattan_slide)

lemma heuristic_value_path:
  assumes "contiguous p" "p \<noteq> []" "grid_shape (hd p)"
  shows "heuristic_value cfg (hd p) gl \<le> 2 * (int (length p) - 1) + heuristic_value cfg (last p) gl"
  using assms
proof (induction p rule: contiguous.induct)
  case 1
  then show ?case by simp
next
  case (2 a)
  show ?case by simp
next
  case (3 a b p)
  from "3.prems" have "slide a b" "grid_shape a" by simp_all
  then have "heuristic_value cfg a gl \<le> 2 + heuristic_value cfg b gl" "grid_shape b"
    by (simp_all add: heuristic_value_slide grid_shape_slide)
  with "3.IH" "3.prems" show ?case by simp
qed

subsection \<open>Valid grids\<close>

lemma valid_grid_shape: "valid_grid a \<Longrightarrow> grid_shape a"
  by (simp add: valid_grid_def)

lemma valid_grid_mset:
  assumes "valid_grid a"
  shows "mset (concat a) = mset [0, 1, 2, 3, 4, 5, 6, 7, 8]"
proof (rule ccontr)
  let ?M = "mset (concat a)"
  let ?N = "mset [0, 1, 2, 3, 4, 5, 6, 7, 8 :: int]"
  assume ne: "?M \<noteq> ?N"
  from assms obtain x0 x1 x2 x3 x4 x5 x6 x7 x8
    where "a = [[x0, x1, x2], [x3, x4, x5], [x6, x7, x8]]"
    using grid_shape_explicit valid_grid_shape by blast
  then have size: "size ?M = 9" by simp
  from assms have ones: "count ?M v = 1" if "v \<in> {0, 1, 2, 3, 4, 5, 6, 7, 8}" for v
    using that by (auto simp: valid_grid_def count_mset)
  have "count ?N v \<le> count ?M v" for v
  proof (cases "v \<in> {0, 1, 2, 3, 4, 5, 6, 7, 8}")
    case True
    from ones [OF True] have "1 \<le> count ?M v" by simp
    moreover have "count ?N v \<le> 1" by simp
    ultimately show ?thesis by (rule order_trans [rotated])
  next
    case False
    then have "count ?N v = 0" by simp
    then show ?thesis by simp
  qed
  then have "?N \<subseteq># ?M" by (rule mset_subset_eqI)
  with ne have "?N \<subset># ?M" by (simp add: subset_mset.less_le)
  then have "size ?N < size ?M" by (rule mset_subset_size)
  with size show False by simp
qed

lemma valid_grid_distinct: "valid_grid a \<Longrightarrow> distinct (concat a)"
proof -
  assume "valid_grid a"
  then have "mset (concat a) = mset [0, 1, 2, 3, 4, 5, 6, 7, 8]" by (rule valid_grid_mset)
  then have "distinct (concat a) = distinct [0, 1, 2, 3, 4, 5, 6, 7, 8 :: int]"
    by (rule mset_eq_imp_distinct_iff)
  then show ?thesis by simp
qed

lemma misplaced_tiles_same: "misplaced_tiles gl gl = 0"
  by (simp add: misplaced_tiles_cellsum cellsum_def)

lemma lt_3_cases: "(i::nat) < 3 \<Longrightarrow> i = 0 \<or> i = 1 \<or> i = 2"
  by arith

lemma concat_grid_nth:
  assumes "grid_shape a" "i < 3" "j < 3"
  shows "concat a ! (3 * i + j) = a ! i ! j"
proof -
  from assms(1) obtain x0 x1 x2 x3 x4 x5 x6 x7 x8
    where a: "a = [[x0, x1, x2], [x3, x4, x5], [x6, x7, x8]]"
    using grid_shape_explicit by blast
  from lt_3_cases [OF assms(2)] lt_3_cases [OF assms(3)] show ?thesis
    by (elim disjE) (simp_all add: a)
qed

lemma valid_grid_cells_inj:
  assumes "valid_grid a" "i < 3" "j < 3" "k < 3" "l < 3" "a ! i ! j = a ! k ! l"
  shows "i = k \<and> j = l"
proof -
  from assms(1) have sh: "grid_shape a" by (rule valid_grid_shape)
  from sh obtain x0 x1 x2 x3 x4 x5 x6 x7 x8
    where a: "a = [[x0, x1, x2], [x3, x4, x5], [x6, x7, x8]]"
    using grid_shape_explicit by blast
  have len: "length (concat a) = 9" by (simp add: a)
  from assms have "concat a ! (3 * i + j) = concat a ! (3 * k + l)"
    by (simp add: concat_grid_nth sh)
  moreover from assms(2-5) have "3 * i + j < length (concat a)" "3 * k + l < length (concat a)"
    by (simp_all add: len)
  ultimately have "3 * i + j = 3 * k + l"
    using valid_grid_distinct [OF assms(1)] by (simp add: nth_eq_iff_index_eq)
  with assms(3,5) show ?thesis by arith
qed

lemma find_the_only:
  assumes "x \<in> set xs" "P x" "\<And>y. y \<in> set xs \<Longrightarrow> P y \<Longrightarrow> y = x"
  shows "find P xs = Some x"
  using assms
proof (induction xs)
  case Nil
  then show ?case by simp
next
  case (Cons a xs)
  show ?case
  proof (cases "P a")
    case True
    with Cons.prems(3) [of a] show ?thesis by simp
  next
    case False
    with Cons.prems(1,2) have "x \<in> set xs" by auto
    moreover have "y = x" if "y \<in> set xs" "P y" for y
      using that Cons.prems(3) [of y] by simp
    ultimately have "find P xs = Some x" using Cons.prems(2) by (intro Cons.IH)
    with False show ?thesis by simp
  qed
qed

lemma first_match_own_cell:
  assumes "valid_grid gl" "i < 3" "j < 3"
  shows "first_match gl (gl ! i ! j) = Some (i, j)"
  unfolding first_match_def
proof (rule find_the_only)
  from lt_3_cases [OF assms(2)] lt_3_cases [OF assms(3)]
  show "(i, j) \<in> set [(0, 0), (0, 1), (0, 2), (1, 0), (1, 1), (1, 2), (2, 0), (2, 1), (2, 2)]"
    by auto
next
  show "case (i, j) of (k, l) \<Rightarrow> gl ! i ! j = gl ! k ! l" by simp
next
  fix y
  assume y: "y \<in> set [(0, 0), (0, 1), (0, 2), (1, 0), (1, 1), (1, 2), (2, 0), (2, 1), (2, 2)]"
    and m: "case y of (k, l) \<Rightarrow> gl ! i ! j = gl ! k ! l"
  obtain k l where kl: "y = (k, l)" by (cases y)
  with y have "k < 3" "l < 3" by auto
  with valid_grid_cells_inj [OF assms, of k l] m kl show "y = (i, j)" by simp
qed

lemma cell_cost_own_cell: "valid_grid gl \<Longrightarrow> i < 3 \<Longrightarrow> j < 3 \<Longrightarrow> cell_cost gl (gl ! i ! j) i j = 0"
  by (simp add: cell_cost_first_match first_match_own_cell)

lemma manhattan_same:
  assumes "valid_grid gl"
  shows "manhattan gl gl = 0"
  by (simp add: manhattan_cellsum cellsum_def rows_upt cols_upt cell_cost_own_cell [OF assms])

lemma heuristic_value_same: "valid_grid gl \<Longrightarrow> heuristic_value cfg gl gl = 0"
  by (cases cfg) (simp_all add: heuristic_value_def misplaced_tiles_same manhattan_same)

subsection \<open>Admissibility and consistency\<close>

text \<open>
  C4, as stated, fails for both heuristics, because both count the cell of the blank. One
  slide turns \<open>near_goal_grid\<close> into \<open>goal_grid\<close>, yet both heuristics give 2 for it: more
  than the one slide needed, and more than 1 plus the value 0 of the goal.
\<close>

theorem heuristics_count_the_blank:
  "valid_grid near_goal_grid \<and> valid_grid goal_grid \<and> slide near_goal_grid goal_grid \<and>
   heuristic_value MISPLACED_TILES near_goal_grid goal_grid = 2 \<and>
   heuristic_value MISPLACED_TILES goal_grid goal_grid = 0 \<and>
   heuristic_value MANHATTAN near_goal_grid goal_grid = 2 \<and>
   heuristic_value MANHATTAN goal_grid goal_grid = 0"
  by code_simp

text \<open>
  C4, amended. For a valid goal and either heuristic: the goal has the value 0; a slide
  lowers the value by at most 2; so the value of a grid is at most twice the number of
  slides of any sequence of slides that leads from it to the goal.
\<close>

theorem heuristic_within_twice_the_distance:
  assumes "valid_grid gl" and "grid_shape s"
  shows "heuristic_value cfg gl gl = 0 \<and>
         (\<forall>s'. slide s s' \<longrightarrow> heuristic_value cfg s gl \<le> 2 + heuristic_value cfg s' gl) \<and>
         (\<forall>p. p \<noteq> [] \<and> hd p = s \<and> last p = gl \<and> contiguous p \<longrightarrow>
              heuristic_value cfg s gl \<le> 2 * (int (length p) - 1))"
proof (intro conjI allI impI)
  show "heuristic_value cfg gl gl = 0"
    using assms(1) by (rule heuristic_value_same)
next
  fix s'
  assume "slide s s'"
  with assms(2) show "heuristic_value cfg s gl \<le> 2 + heuristic_value cfg s' gl"
    by (rule heuristic_value_slide)
next
  fix p
  assume p: "p \<noteq> [] \<and> hd p = s \<and> last p = gl \<and> contiguous p"
  with assms(2) heuristic_value_path [of p cfg gl] heuristic_value_same [OF assms(1), of cfg]
  show "heuristic_value cfg s gl \<le> 2 * (int (length p) - 1)"
    by simp
qed

theorem heuristic_within_twice_the_distance_witness:
  "valid_grid goal_grid \<and> grid_shape near_goal_grid \<and> slide near_goal_grid goal_grid \<and>
   contiguous [near_goal_grid, goal_grid] \<and>
   heuristic_value MANHATTAN goal_grid goal_grid = 0 \<and>
   heuristic_value MANHATTAN near_goal_grid goal_grid
     \<le> 2 + heuristic_value MANHATTAN goal_grid goal_grid \<and>
   heuristic_value MANHATTAN near_goal_grid goal_grid
     \<le> 2 * (int (length [near_goal_grid, goal_grid]) - 1)"
proof -
  have v: "valid_grid goal_grid" and g: "grid_shape near_goal_grid"
    and sl: "slide near_goal_grid goal_grid"
    by code_simp+
  have c: "contiguous [near_goal_grid, goal_grid]" using sl by simp
  note t = heuristic_within_twice_the_distance [OF v g, of MANHATTAN]
  have p: "[near_goal_grid, goal_grid] \<noteq> [] \<and> hd [near_goal_grid, goal_grid] = near_goal_grid \<and>
           last [near_goal_grid, goal_grid] = goal_grid \<and> contiguous [near_goal_grid, goal_grid]"
    using c by simp
  note t [THEN conjunct1]
    t [THEN conjunct2, THEN conjunct1, rule_format, OF sl]
    t [THEN conjunct2, THEN conjunct2, rule_format, OF p]
  with v g sl c show ?thesis by (intro conjI)
qed

subsection \<open>Termination of the loop\<close>

lemma same_cells_iff:
  assumes "grid_shape a" "grid_shape b"
  shows "same_cells a b \<longleftrightarrow> a = b"
proof -
  from assms(1) obtain x0 x1 x2 x3 x4 x5 x6 x7 x8
    where a: "a = [[x0, x1, x2], [x3, x4, x5], [x6, x7, x8]]"
    using grid_shape_explicit by blast
  from assms(2) obtain y0 y1 y2 y3 y4 y5 y6 y7 y8
    where b: "b = [[y0, y1, y2], [y3, y4, y5], [y6, y7, y8]]"
    using grid_shape_explicit by blast
  show ?thesis by (simp add: a b same_cells_def upt_3)
qed

lemma solve_loop_None_iff: "solve_loop cfg n s = None \<longleftrightarrow> loop_state cfg n s \<noteq> None"
  by (induction n arbitrary: s) (simp_all add: solve_loop_Suc loop_state_Suc)

lemma loop_state_length_closed:
  "loop_state cfg k s = Some s' \<Longrightarrow> length (closed s') = length (closed s) + k"
proof (induction k arbitrary: s)
  case 0
  then show ?case by simp
next
  case (Suc k)
  then show ?case by (auto simp: loop_state_Suc split: if_splits)
qed

lemma cells_within_slide:
  assumes "cells_within V a" "slide a b"
  shows "cells_within V b"
proof -
  from assms(2) obtain i j k l where lt: "i < 3" "j < 3" "k < 3" "l < 3"
    and b: "b = swap_cells a i j k l"
    by (auto simp: slide_iff)
  from assms(1) have sh: "grid_shape a" and v: "\<And>p q. p < 3 \<Longrightarrow> q < 3 \<Longrightarrow> a ! p ! q \<in> V"
    by (simp_all add: cells_within_def)
  show ?thesis
    by (simp add: cells_within_def b grid_shape_swap_cells swap_cells_nth sh lt v)
qed

lemma cells_within_path:
  "contiguous p \<Longrightarrow> p \<noteq> [] \<Longrightarrow> cells_within V (hd p) \<Longrightarrow> cells_within V (last p)"
proof (induction p rule: contiguous.induct)
  case 1
  then show ?case by simp
next
  case (2 a)
  then show ?case by simp
next
  case (3 a b p)
  then show ?case by (simp add: cells_within_slide)
qed

lemma cells_within_self: "grid_shape a \<Longrightarrow> cells_within (cells_of a) a"
  by (auto simp: cells_within_def cells_of_def)

lemma finite_cells_within:
  assumes "finite V"
  shows "finite {a. cells_within V a}"
proof -
  let ?R = "{r. set r \<subseteq> V \<and> length r = 3}"
  have fr: "finite ?R" using assms by (rule finite_lists_length_eq)
  have "cells_within V a \<Longrightarrow> set a \<subseteq> ?R \<and> length a = 3" for a
  proof -
    assume cw: "cells_within V a"
    then have len: "length a = 3" and rows: "\<And>p. p < 3 \<Longrightarrow> length (a ! p) = 3"
      and v: "\<And>p q. p < 3 \<Longrightarrow> q < 3 \<Longrightarrow> a ! p ! q \<in> V"
      by (simp_all add: cells_within_def grid_shape_def list_all_length)
    have "r \<in> ?R" if "r \<in> set a" for r
    proof -
      from that len obtain p where p: "p < 3" "r = a ! p"
        by (auto simp: in_set_conv_nth)
      with rows v show ?thesis by (auto simp: in_set_conv_nth)
    qed
    with len show ?thesis by auto
  qed
  then have "{a. cells_within V a} \<subseteq> {a. set a \<subseteq> ?R \<and> length a = 3}" by auto
  moreover have "finite {a. set a \<subseteq> ?R \<and> length a = 3}"
    using fr by (rule finite_lists_length_eq)
  ultimately show ?thesis by (rule finite_subset)
qed

lemma good_node_cells_within:
  assumes "good_node cfg start gl n" "grid_shape start"
  shows "cells_within (cells_of start) (node_a n)"
proof -
  from assms(1) have "contiguous (printPath (Some n))" "printPath (Some n) \<noteq> []"
    "hd (printPath (Some n)) = start" "last (printPath (Some n)) = node_a n"
    by (simp_all add: good_node_def)
  with cells_within_path [of "printPath (Some n)" "cells_of start"] cells_within_self [OF assms(2)]
  show ?thesis by simp
qed

lemma closed_distinct_expand:
  assumes "distinct (map node_a (closed s))" "fringe_unexplored s" "cur \<in> set (fringe s)"
  shows "distinct (map node_a (closed (expand cfg cur s)))"
proof -
  from assms(2,3) have "\<not> isExplored (closed s) cur"
    by (simp add: fringe_unexplored_def list_all_iff)
  then have "node_a cur \<notin> node_a ` set (closed s)"
    by (auto simp: isExplored_iff)
  with assms(1) show ?thesis by simp
qed

lemma loop_state_closed_distinct:
  assumes "loop_state cfg k (start_globals cfg start gl) = Some s"
  shows "distinct (map node_a (closed s)) \<and> fringe_unexplored s \<and> all_good cfg start gl s"
  using assms
proof (rule loop_state_invariant)
  show "distinct (map node_a (closed (start_globals cfg start gl))) \<and>
        fringe_unexplored (start_globals cfg start gl) \<and>
        all_good cfg start gl (start_globals cfg start gl)"
    by (simp add: fringe_unexplored_start all_good_start) (simp add: start_globals_def initial_globals_def)
next
  fix s
  assume "distinct (map node_a (closed s)) \<and> fringe_unexplored s \<and> all_good cfg start gl s"
    and "fringe s \<noteq> []"
  then show "distinct (map node_a (closed (expand cfg (select_node (fringe s)) s))) \<and>
        fringe_unexplored (expand cfg (select_node (fringe s)) s) \<and>
        all_good cfg start gl (expand cfg (select_node (fringe s)) s)"
    by (intro conjI closed_distinct_expand fringe_unexplored_expand all_good_expand
        select_node_in_fringe) simp_all
qed

lemma loop_state_bound:
  assumes "grid_shape start" "loop_state cfg k (start_globals cfg start gl) = Some s"
  shows "k \<le> card {a. cells_within (cells_of start) a}"
proof -
  let ?G = "{a. cells_within (cells_of start) a}"
  have fin: "finite ?G" by (rule finite_cells_within) (simp add: cells_of_def)
  from loop_state_closed_distinct [OF assms(2)]
  have d: "distinct (map node_a (closed s))" and g: "all_good cfg start gl s" by simp_all
  from g have "node_a ` set (closed s) \<subseteq> ?G"
    by (auto simp: all_good_def list_all_iff good_node_cells_within assms(1))
  then have "card (set (map node_a (closed s))) \<le> card ?G"
    using fin by (simp add: card_mono)
  moreover from distinct_card [OF d] have "card (set (map node_a (closed s))) = length (closed s)"
    by simp
  ultimately have "length (closed s) \<le> card ?G"
    by simp
  moreover from loop_state_length_closed [OF assms(2)] have "length (closed s) = k"
    by (simp add: start_globals_def initial_globals_def)
  ultimately show ?thesis by simp
qed

lemma main_terminates:
  assumes "grid_shape start"
  shows "\<exists>n r. main cfg n start gl = Some r"
proof -
  let ?n = "Suc (card {a. cells_within (cells_of start) a})"
  have "loop_state cfg ?n (start_globals cfg start gl) = None"
  proof (rule ccontr)
    assume "loop_state cfg ?n (start_globals cfg start gl) \<noteq> None"
    then obtain s where "loop_state cfg ?n (start_globals cfg start gl) = Some s" by blast
    from loop_state_bound [OF assms this] show False by simp
  qed
  then have "solve_loop cfg ?n (start_globals cfg start gl) \<noteq> None"
    by (simp add: solve_loop_None_iff)
  then show ?thesis
    by (auto simp: main_def solve_def start_globals_def initial_globals_def)
qed

lemma main_success_node:
  assumes "main cfg n start gl = Some (Inr (p, s))"
  shows "\<exists>k s0. loop_state cfg k (start_globals cfg start gl) = Some s0 \<and> fringe s0 \<noteq> [] \<and>
           isGoal (select_node (fringe s0)) \<and> p = printPath (Some (select_node (fringe s0))) \<and>
           good_node cfg start gl (select_node (fringe s0))"
proof -
  from assms have "solve_loop cfg n (start_globals cfg start gl) = Some (Inr (p, s))"
    by (simp add: main_def solve_def start_globals_def initial_globals_def)
  then obtain k s0 where run: "loop_state cfg k (start_globals cfg start gl) = Some s0"
    and ne: "fringe s0 \<noteq> []" and goal: "isGoal (select_node (fringe s0))"
    and p: "p = printPath (Some (select_node (fringe s0)))"
    using solve_loop_result by blast
  from all_good_loop_state [OF run] select_node_in_fringe [OF ne]
  have "good_node cfg start gl (select_node (fringe s0))"
    by (simp add: all_good_def list_all_iff)
  with run ne goal p show ?thesis by blast
qed

lemma main_success_path:
  assumes "main cfg n start gl = Some (Inr (p, s))"
  shows "p \<noteq> [] \<and> hd p = start \<and> contiguous p \<and> same_cells (last p) gl"
proof -
  from main_success_node [OF assms] obtain cur where "isGoal cur" "p = printPath (Some cur)"
    "good_node cfg start gl cur" by blast
  then show ?thesis by (simp add: good_node_def isGoal_same_cells)
qed

lemma unsolvable_ends_at_empty_fringe:
  assumes "grid_shape start"
    and "\<And>p. p \<noteq> [] \<Longrightarrow> hd p = start \<Longrightarrow> contiguous p \<Longrightarrow> \<not> same_cells (last p) gl"
  shows "\<exists>n. main cfg n start gl = Some (Inl FrontOfEmptyFringe)"
proof -
  from main_terminates [OF assms(1)] obtain n r where r: "main cfg n start gl = Some r" by blast
  show ?thesis
  proof (cases r)
    case (Inl e)
    with r show ?thesis by (cases e) auto
  next
    case (Inr ps)
    obtain p s where "ps = (p, s)" by (cases ps)
    with r Inr main_success_path [of cfg n start gl p s] assms(2) [of p] show ?thesis by simp
  qed
qed

subsection \<open>Slides keep the parity of the inversions\<close>

lemma cross_inversions_simps [simp]:
  "cross_inversions [] ys = 0"
  "cross_inversions (x # xs) ys = length (filter (\<lambda>y. y < x) ys) + cross_inversions xs ys"
  "cross_inversions (xs @ zs) ys = cross_inversions xs ys + cross_inversions zs ys"
  by (simp_all add: cross_inversions_def)

lemma cross_inversions_Nil_right [simp]: "cross_inversions xs [] = 0"
  by (induction xs) simp_all

lemma cross_inversions_Cons_right [simp]:
  "cross_inversions xs (y # ys) = length (filter (\<lambda>x. y < x) xs) + cross_inversions xs ys"
  by (induction xs) simp_all

lemma cross_inversions_append_right [simp]:
  "cross_inversions xs (ys @ zs) = cross_inversions xs ys + cross_inversions xs zs"
  by (induction ys) simp_all

lemma inversions_append:
  "inversions (xs @ ys) = inversions xs + inversions ys + cross_inversions xs ys"
  by (induction xs) simp_all

lemma less_or_greater_count:
  "(v::int) \<notin> set ms \<Longrightarrow> length (filter (\<lambda>x. v < x) ms) + length (filter (\<lambda>y. y < v) ms) = length ms"
  by (induction ms) auto

lemma inversions_move:
  assumes "v \<notin> set ms" "even (length ms)"
  shows "even (inversions (as @ ms @ [v] @ bs)) = even (inversions (as @ [v] @ ms @ bs))"
proof -
  let ?up = "length (filter (\<lambda>x. v < x) ms)" and ?down = "length (filter (\<lambda>y. y < v) ms)"
  have "inversions (as @ ms @ [v] @ bs) + ?down = inversions (as @ [v] @ ms @ bs) + ?up"
    by (simp add: inversions_append)
  moreover from assms have "even (?up + ?down)"
    by (simp add: less_or_greater_count)
  ultimately show ?thesis
    by (metis even_add)
qed

lemma list_two_positions:
  assumes "P < Q" "Q < length xs"
  shows "xs = take P xs @ [xs ! P] @ take (Q - P - 1) (drop (Suc P) xs) @ [xs ! Q] @ drop (Suc Q) xs"
proof -
  from assms have "xs = take P xs @ xs ! P # drop (Suc P) xs"
    by (simp add: id_take_nth_drop)
  moreover from assms have "drop (Suc P) xs =
      take (Q - P - 1) (drop (Suc P) xs) @ drop (Suc P) xs ! (Q - P - 1) # drop (Suc (Q - P - 1)) (drop (Suc P) xs)"
    by (intro id_take_nth_drop) simp
  moreover from assms have "drop (Suc P) xs ! (Q - P - 1) = xs ! Q" by simp
  moreover from assms have "drop (Suc (Q - P - 1)) (drop (Suc P) xs) = drop (Suc Q) xs" by simp
  ultimately show ?thesis by simp
qed

lemma swap_in_decomposition:
  "(as @ [u] @ ms @ [v] @ bs)[length as := v, Suc (length as + length ms) := u] =
     as @ [v] @ ms @ [u] @ bs"
  by (simp add: list_update_append)

lemma list_swap_positions:
  assumes "P < Q" "Q < length xs"
  obtains as ms bs where "xs = as @ [xs ! P] @ ms @ [xs ! Q] @ bs"
    and "xs[P := xs ! Q, Q := xs ! P] = as @ [xs ! Q] @ ms @ [xs ! P] @ bs"
    and "length ms = Q - P - 1"
proof -
  let ?as = "take P xs" and ?ms = "take (Q - P - 1) (drop (Suc P) xs)" and ?bs = "drop (Suc Q) xs"
  have d: "xs = ?as @ [xs ! P] @ ?ms @ [xs ! Q] @ ?bs"
    using assms by (rule list_two_positions)
  from assms have la: "length ?as = P" and lm: "length ?ms = Q - P - 1" by simp_all
  with assms have q: "Suc (P + length ?ms) = Q" by simp
  have "(?as @ [xs ! P] @ ?ms @ [xs ! Q] @ ?bs)[length ?as := xs ! Q, Suc (length ?as + length ?ms) := xs ! P]
        = ?as @ [xs ! Q] @ ?ms @ [xs ! P] @ ?bs"
    by (rule swap_in_decomposition)
  with d have "xs[length ?as := xs ! Q, Suc (length ?as + length ?ms) := xs ! P]
        = ?as @ [xs ! Q] @ ?ms @ [xs ! P] @ ?bs"
    by simp
  then have "xs[P := xs ! Q, Q := xs ! P] = ?as @ [xs ! Q] @ ?ms @ [xs ! P] @ ?bs"
    by (simp only: la q)
  from d this lm show ?thesis by (rule that)
qed

lemma length_concat_grid: "grid_shape a \<Longrightarrow> length (concat a) = 9"
  using grid_shape_explicit [of a] by auto

lemma concat_swap_cells:
  assumes "grid_shape a" "i < 3" "j < 3" "k < 3" "l < 3"
  shows "concat (swap_cells a i j k l) = (concat a)[3 * i + j := a ! k ! l, 3 * k + l := a ! i ! j]"
proof (rule nth_equalityI)
  show "length (concat (swap_cells a i j k l)) =
        length ((concat a)[3 * i + j := a ! k ! l, 3 * k + l := a ! i ! j])"
    using assms by (simp add: length_concat_grid grid_shape_swap_cells)
next
  fix n
  assume "n < length (concat (swap_cells a i j k l))"
  with assms(1) have n: "n < 9" by (simp add: length_concat_grid grid_shape_swap_cells)
  let ?p = "n div 3" and ?q = "n mod 3"
  from n have pq: "?p < 3" "?q < 3" "n = 3 * ?p + ?q" by simp_all
  have ij: "(?p, ?q) = (i, j) \<longleftrightarrow> n = 3 * i + j" using assms(3) by auto
  have kl: "(?p, ?q) = (k, l) \<longleftrightarrow> n = 3 * k + l" using assms(5) by auto
  have "concat (swap_cells a i j k l) ! n = swap_cells a i j k l ! ?p ! ?q"
    using concat_grid_nth [of "swap_cells a i j k l" ?p ?q] pq assms(1)
    by (simp add: grid_shape_swap_cells)
  also have "\<dots> = (if n = 3 * k + l then a ! i ! j
                   else if n = 3 * i + j then a ! k ! l else a ! ?p ! ?q)"
    using ij kl by (simp add: swap_cells_nth assms del: Pair_inject prod.inject)
  also have "a ! ?p ! ?q = concat a ! n"
    using concat_grid_nth [of a ?p ?q] pq assms(1) by simp
  finally show "concat (swap_cells a i j k l) ! n =
      (concat a)[3 * i + j := a ! k ! l, 3 * k + l := a ! i ! j] ! n"
    using n assms(1) by (simp add: nth_list_update length_concat_grid)
qed

lemma tiles_swap_parity:
  assumes "distinct xs" "P < Q" "Q < length xs" "xs ! P = 0 \<or> xs ! Q = 0" "odd (Q - P)"
  shows "even (inversions (filter (\<lambda>v. v \<noteq> 0) (xs[P := xs ! Q, Q := xs ! P]))) =
         even (inversions (filter (\<lambda>v. v \<noteq> 0) xs))"
proof -
  let ?f = "filter (\<lambda>v::int. v \<noteq> 0)"
  from assms(2,3) obtain as ms bs where xs: "xs = as @ [xs ! P] @ ms @ [xs ! Q] @ bs"
    and sw: "xs[P := xs ! Q, Q := xs ! P] = as @ [xs ! Q] @ ms @ [xs ! P] @ bs"
    and len: "length ms = Q - P - 1"
    by (rule list_swap_positions)
  let ?u = "xs ! P" and ?v = "xs ! Q"
  from assms(1) have "distinct (as @ [?u] @ ms @ [?v] @ bs)" using xs by simp
  then have d: "?u \<notin> set ms" "?v \<notin> set ms" "?u \<noteq> ?v" by auto
  from assms(2,5) len have ev: "even (length ms)" by auto
  from assms(4) show ?thesis
  proof
    assume u: "?u = 0"
    with d have "?f ms = ms" "?v \<noteq> 0" by (auto simp: filter_id_conv)
    with u have "?f (as @ [?u] @ ms @ [?v] @ bs) = ?f as @ ms @ [?v] @ ?f bs"
      "?f (as @ [?v] @ ms @ [?u] @ bs) = ?f as @ [?v] @ ms @ ?f bs"
      by simp_all
    with inversions_move [OF d(2) ev, of "?f as" "?f bs"] xs sw show ?thesis by metis
  next
    assume v: "?v = 0"
    with d have "?f ms = ms" "?u \<noteq> 0" by (auto simp: filter_id_conv)
    with v have "?f (as @ [?u] @ ms @ [?v] @ bs) = ?f as @ [?u] @ ms @ ?f bs"
      "?f (as @ [?v] @ ms @ [?u] @ bs) = ?f as @ ms @ [?u] @ ?f bs"
      by simp_all
    with inversions_move [OF d(1) ev, of "?f as" "?f bs"] xs sw show ?thesis by metis
  qed
qed

lemma valid_grid_iff_mset:
  "valid_grid a \<longleftrightarrow> grid_shape a \<and> mset (concat a) = mset [0, 1, 2, 3, 4, 5, 6, 7, 8]"
proof
  assume "valid_grid a"
  then show "grid_shape a \<and> mset (concat a) = mset [0, 1, 2, 3, 4, 5, 6, 7, 8]"
    by (simp add: valid_grid_shape valid_grid_mset)
next
  assume r: "grid_shape a \<and> mset (concat a) = mset [0, 1, 2, 3, 4, 5, 6, 7, 8]"
  then have "count_list (concat a) v = count (mset [0, 1, 2, 3, 4, 5, 6, 7, 8]) v" for v
    by (simp add: count_mset [symmetric] del: count_mset)
  with r show "valid_grid a" by (simp add: valid_grid_def)
qed

lemma slide_valid_grid:
  assumes "valid_grid a" "slide a b"
  shows "valid_grid b \<and> even_tiles b = even_tiles a"
proof -
  from assms(1) have sh: "grid_shape a" by (rule valid_grid_shape)
  from assms(2) obtain i j k l where lt: "i < 3" "j < 3" "k < 3" "l < 3"
    and blank: "a ! i ! j = 0"
    and adj: "l = j \<and> (i = k + 1 \<or> k = i + 1) \<or> k = i \<and> (j = l + 1 \<or> l = j + 1)"
    and b: "b = swap_cells a i j k l"
    by (auto simp: slide_iff)
  let ?xs = "concat a" and ?p = "3 * i + j" and ?q = "3 * k + l"
  have len: "length ?xs = 9" using sh by (rule length_concat_grid)
  from lt have pq: "?p < 9" "?q < 9" by simp_all
  from adj lt have ne: "?p \<noteq> ?q" by auto
  from adj lt have odd: "?p < ?q \<Longrightarrow> odd (?q - ?p)" "?q < ?p \<Longrightarrow> odd (?p - ?q)" by auto
  have xp: "?xs ! ?p = a ! i ! j" and xq: "?xs ! ?q = a ! k ! l"
    using sh lt by (simp_all add: concat_grid_nth)
  have cb: "concat b = ?xs[?p := ?xs ! ?q, ?q := ?xs ! ?p]"
    by (simp add: b concat_swap_cells sh lt xp xq)
  have "mset (concat b) = mset ?xs"
    unfolding cb using pq len by (simp add: mset_swap)
  with assms(1) have vb: "valid_grid b"
    by (simp add: valid_grid_iff_mset b grid_shape_swap_cells)
  have dist: "distinct ?xs" using assms(1) by (rule valid_grid_distinct)
  have "even (inversions (filter (\<lambda>v. v \<noteq> 0) (concat b))) =
        even (inversions (filter (\<lambda>v. v \<noteq> 0) ?xs))"
  proof (cases "?p < ?q")
    case True
    have "?q < length ?xs" "?xs ! ?p = 0 \<or> ?xs ! ?q = 0"
      by (simp_all add: len pq xp blank)
    with dist True show ?thesis unfolding cb
      using odd(1) [OF True] by (rule tiles_swap_parity)
  next
    case False
    with ne have lt': "?q < ?p" by simp
    have "?xs[?p := ?xs ! ?q, ?q := ?xs ! ?p] = ?xs[?q := ?xs ! ?p, ?p := ?xs ! ?q]"
      using ne by (simp add: list_update_swap)
    moreover have "?p < length ?xs" "?xs ! ?q = 0 \<or> ?xs ! ?p = 0"
      by (simp_all add: len pq xp blank)
    with dist lt' have "even (inversions (filter (\<lambda>v. v \<noteq> 0) (?xs[?q := ?xs ! ?p, ?p := ?xs ! ?q]))) =
        even (inversions (filter (\<lambda>v. v \<noteq> 0) ?xs))"
      using odd(2) [OF lt'] by (rule tiles_swap_parity)
    ultimately show ?thesis unfolding cb by simp
  qed
  with vb show ?thesis by (simp add: even_tiles_def tiles_def)
qed

lemma path_valid_grid:
  "contiguous p \<Longrightarrow> p \<noteq> [] \<Longrightarrow> valid_grid (hd p) \<Longrightarrow>
     valid_grid (last p) \<and> even_tiles (last p) = even_tiles (hd p)"
proof (induction p rule: contiguous.induct)
  case 1
  then show ?case by simp
next
  case (2 a)
  then show ?case by simp
next
  case (3 a b p)
  from "3.prems" slide_valid_grid [of a b] have "valid_grid b" "even_tiles b = even_tiles a"
    by simp_all
  with "3.IH" "3.prems" show ?case by simp
qed

lemma odd_start_unsolvable:
  assumes "p \<noteq> []" "hd p = odd_start" "contiguous p"
  shows "\<not> same_cells (last p) goal_grid"
proof
  assume sc: "same_cells (last p) goal_grid"
  have v: "valid_grid odd_start" by code_simp
  from path_valid_grid [OF assms(3,1)] v assms(2)
  have vl: "valid_grid (last p)" and par: "even_tiles (last p) = even_tiles odd_start" by simp_all
  have "grid_shape goal_grid" by code_simp
  with sc vl have "last p = goal_grid"
    by (simp add: same_cells_iff valid_grid_shape)
  moreover have "even_tiles goal_grid" "\<not> even_tiles odd_start" by code_simp+
  ultimately show False using par by simp
qed

subsection \<open>An unsolvable instance\<close>

text \<open>
  C2. The loop of \<open>solve\<close> has no test for an empty fringe. On the unsolvable instance
  of the specification (start \<open>odd_start\<close>, goal \<open>goal_grid\<close>) the run does end, with
  either heuristic, but not in a failure result: after finitely many iterations the fringe
  is empty and the next iteration calls \<open>fringe.front()\<close> on the empty list.
\<close>

theorem unsolvable_instance_reads_empty_fringe:
  "\<exists>n. main cfg n odd_start goal_grid = Some (Inl FrontOfEmptyFringe)"
proof (rule unsolvable_ends_at_empty_fringe)
  show "grid_shape odd_start" by code_simp
next
  fix p
  assume "p \<noteq> []" "hd p = odd_start" "contiguous p"
  then show "\<not> same_cells (last p) goal_grid" by (rule odd_start_unsolvable)
qed

subsection \<open>Misplaced tiles without the blank, and the colour of the blank's cell\<close>












subsection \<open>The misplaced-tiles search finds a shortest path\<close>

















end
